theory Spec2Isabelle
  imports Main "HOL-Library.Sublist" "HOL-Library.AList" "HOL-Library.Char_ord" "HOL-Library.List_Lexorder"
begin

section \<open>Go strings and the \<open>strings\<close> package\<close>

text \<open>
  A Go \<open>string\<close> is a sequence of bytes, here \<^typ>\<open>string\<close> (a list of 8-bit
  \<^typ>\<open>char\<close>). \<open>grafe.go\<close> uses four functions of the standard \<open>strings\<close>
  package: \<open>TrimSpace\<close>, \<open>Split\<close>, \<open>TrimPrefix\<close> and \<open>TrimSuffix\<close>.

  \<open>strings.TrimSpace\<close> removes leading and trailing white space "as defined by
  Unicode": the code points for which \<open>unicode.IsSpace\<close> holds, read from the UTF-8
  encoding of the string. \<open>spaceEncodings\<close> lists the UTF-8 encodings of exactly those
  code points: U+0009 to U+000D, U+0020, U+0085, U+00A0, U+1680, U+2000 to U+200A,
  U+2028, U+2029, U+202F, U+205F and U+3000.
\<close>

definition spaceEncodings :: "string list" where
  "spaceEncodings =
     [[CHR 0x09], [CHR 0x0A], [CHR 0x0B], [CHR 0x0C], [CHR 0x0D], [CHR 0x20],
      [CHR 0xC2, CHR 0x85], [CHR 0xC2, CHR 0xA0],
      [CHR 0xE1, CHR 0x9A, CHR 0x80],
      [CHR 0xE2, CHR 0x80, CHR 0x80], [CHR 0xE2, CHR 0x80, CHR 0x81],
      [CHR 0xE2, CHR 0x80, CHR 0x82], [CHR 0xE2, CHR 0x80, CHR 0x83],
      [CHR 0xE2, CHR 0x80, CHR 0x84], [CHR 0xE2, CHR 0x80, CHR 0x85],
      [CHR 0xE2, CHR 0x80, CHR 0x86], [CHR 0xE2, CHR 0x80, CHR 0x87],
      [CHR 0xE2, CHR 0x80, CHR 0x88], [CHR 0xE2, CHR 0x80, CHR 0x89],
      [CHR 0xE2, CHR 0x80, CHR 0x8A],
      [CHR 0xE2, CHR 0x80, CHR 0xA8], [CHR 0xE2, CHR 0x80, CHR 0xA9],
      [CHR 0xE2, CHR 0x80, CHR 0xAF],
      [CHR 0xE2, CHR 0x81, CHR 0x9F],
      [CHR 0xE3, CHR 0x80, CHR 0x80]]"

text \<open>
  The number of bytes of the white-space character a string starts with (ends with), or
  0 when it starts (ends) with none. Decoding the first (last) rune of a string yields a
  white-space rune exactly when the string starts (ends) with one of the encodings above.
\<close>

definition leadingSpace :: "string \<Rightarrow> nat" where
  "leadingSpace s =
     (case find (\<lambda>e. prefix e s) spaceEncodings of None \<Rightarrow> 0 | Some e \<Rightarrow> length e)"

definition trailingSpace :: "string \<Rightarrow> nat" where
  "trailingSpace s =
     (case find (\<lambda>e. suffix e s) spaceEncodings of None \<Rightarrow> 0 | Some e \<Rightarrow> length e)"

lemma spaceEncodings_nonempty: "e \<in> set spaceEncodings \<Longrightarrow> e \<noteq> []"
  by (auto simp: spaceEncodings_def)

lemma leadingSpace_cases:
  "(leadingSpace s = 0 \<and> (\<forall>e \<in> set spaceEncodings. \<not> prefix e s)) \<or>
   (\<exists>e \<in> set spaceEncodings. prefix e s \<and> leadingSpace s = length e \<and> e \<noteq> [])"
proof (cases "find (\<lambda>e. prefix e s) spaceEncodings")
  case None
  then have "\<forall>e \<in> set spaceEncodings. \<not> prefix e s"
    by (simp add: find_None_iff)
  moreover from None have "leadingSpace s = 0"
    by (simp add: leadingSpace_def)
  ultimately show ?thesis
    by blast
next
  case (Some e)
  then have "e \<in> set spaceEncodings" "prefix e s"
    by (auto simp: find_Some_iff)
  with Some show ?thesis
    by (auto simp: leadingSpace_def spaceEncodings_nonempty)
qed

lemma trailingSpace_cases:
  "(trailingSpace s = 0 \<and> (\<forall>e \<in> set spaceEncodings. \<not> suffix e s)) \<or>
   (\<exists>e \<in> set spaceEncodings. suffix e s \<and> trailingSpace s = length e \<and> e \<noteq> [])"
proof (cases "find (\<lambda>e. suffix e s) spaceEncodings")
  case None
  then have "\<forall>e \<in> set spaceEncodings. \<not> suffix e s"
    by (simp add: find_None_iff)
  moreover from None have "trailingSpace s = 0"
    by (simp add: trailingSpace_def)
  ultimately show ?thesis
    by blast
next
  case (Some e)
  then have "e \<in> set spaceEncodings" "suffix e s"
    by (auto simp: find_Some_iff)
  with Some show ?thesis
    by (auto simp: trailingSpace_def spaceEncodings_nonempty)
qed

lemma leadingSpace_le: "leadingSpace s \<le> length s"
  using leadingSpace_cases [of s] by (auto dest: prefix_length_le)

lemma trailingSpace_le: "trailingSpace s \<le> length s"
  using trailingSpace_cases [of s] by (auto dest: suffix_length_le)

function TrimLeftSpace :: "string \<Rightarrow> string" where
  "TrimLeftSpace s =
     (if leadingSpace s = 0 then s else TrimLeftSpace (drop (leadingSpace s) s))"
  by pat_completeness auto
termination
proof (relation "measure length")
  fix s :: string
  assume "leadingSpace s \<noteq> 0"
  with leadingSpace_le [of s] show "(drop (leadingSpace s) s, s) \<in> measure length"
    by auto
qed simp

function TrimRightSpace :: "string \<Rightarrow> string" where
  "TrimRightSpace s =
     (if trailingSpace s = 0 then s
      else TrimRightSpace (take (length s - trailingSpace s) s))"
  by pat_completeness auto
termination
proof (relation "measure length")
  fix s :: string
  assume "trailingSpace s \<noteq> 0"
  with trailingSpace_le [of s]
  show "(take (length s - trailingSpace s) s, s) \<in> measure length"
    by auto
qed simp

declare TrimLeftSpace.simps [simp del] TrimRightSpace.simps [simp del]

definition TrimSpace :: "string \<Rightarrow> string" where
  "TrimSpace s = TrimRightSpace (TrimLeftSpace s)"

text \<open>
  \<open>strings.Split(s, sep)\<close> cuts \<open>s\<close> at every occurrence of \<open>sep\<close> and returns
  the pieces between them, so the result of splitting at \<open>n\<close> separators has
  \<open>n + 1\<close> elements and is never empty. Both call sites pass a separator of one byte
  (\<open>"/"\<close> and \<open>"."\<close>), which is the parameter here. \<open>splitFrom cur\<close> is the loop, with
  the piece collected so far.
\<close>

fun splitFrom :: "string \<Rightarrow> char \<Rightarrow> string \<Rightarrow> string list" where
  "splitFrom cur sep [] = [cur]"
| "splitFrom cur sep (c # cs) =
     (if c = sep then cur # splitFrom [] sep cs else splitFrom (cur @ [c]) sep cs)"

definition Split :: "string \<Rightarrow> char \<Rightarrow> string list" where
  "Split s sep = splitFrom [] sep s"

definition TrimPrefix :: "string \<Rightarrow> string \<Rightarrow> string" where
  "TrimPrefix s pre = (if prefix pre s then drop (length pre) s else s)"

definition TrimSuffix :: "string \<Rightarrow> string \<Rightarrow> string" where
  "TrimSuffix s suf = (if suffix suf s then take (length s - length suf) s else s)"

section \<open>Path utilities\<close>

text \<open>
  \<open>getExtension\<close>, \<open>removeExtension\<close>, \<open>addExtension\<close> and \<open>changeExtension\<close>
  of \<open>grafe.go\<close>. The two index expressions \<open>filePathParts[len(filePathParts)-1]\<close>
  and \<open>fileNameElems[0]\<close> are \<^const>\<open>last\<close> and \<^const>\<open>hd\<close>; they are always in range,
  because \<open>Split\<close> never returns the empty list (\<open>Split_nonempty\<close> below).
\<close>

definition getExtension :: "string \<Rightarrow> string" where
  "getExtension filePath =
     (let filePathParts = Split (TrimSpace filePath) (CHR ''/'');
          fileName = last filePathParts;
          fileNameElems = Split (TrimSpace fileName) (CHR ''.'');
          extension = TrimPrefix fileName (hd fileNameElems)
      in extension)"

definition removeExtension :: "string \<Rightarrow> string" where
  "removeExtension filePath = TrimSuffix (TrimSpace filePath) (getExtension filePath)"

definition addExtension :: "string \<Rightarrow> string \<Rightarrow> string" where
  "addExtension filePath newExtension = filePath @ newExtension"

definition changeExtension :: "string \<Rightarrow> string \<Rightarrow> string" where
  "changeExtension filePath newExtension =
     addExtension (removeExtension filePath) newExtension"

text \<open>
  The final segment of a path, for stating what \<open>getExtension\<close> returns: the bytes
  after the last slash (the whole string when it has no slash).
\<close>

definition finalSegment :: "string \<Rightarrow> string" where
  "finalSegment s = rev (takeWhile (\<lambda>c. c \<noteq> CHR ''/'') (rev s))"

text \<open>
  A string that can stand as the extension of a file name: it begins with a dot, has no
  slash and does not end in white space.
\<close>

definition isExtension :: "string \<Rightarrow> bool" where
  "isExtension x \<longleftrightarrow> prefix ''.'' x \<and> CHR ''/'' \<notin> set x \<and> trailingSpace x = 0"

section \<open>The operating system\<close>

text \<open>
  The program works on the files below its working directory. The model keeps them as a
  finite table from paths to entries. A path is the list of its components, so that
  \<open>public//x\<close> and \<open>public/x\<close> name the same file; a directory entry records whether the
  directory can be listed (its read permission), a file entry the bytes of the file.
  The empty path is the working directory itself, always a readable directory.
  There are no symbolic links, and the components \<open>.\<close> and \<open>..\<close> are not interpreted:
  no path that the program forms from its fixed roots and from directory listings contains
  them.

  The world is a record so that it can be extended by whatever else a callback's closure
  can reach; every operation works on any extension of it.
\<close>

type_synonym path = "string list"

datatype entry = File string | Dir bool

record world =
  fs :: "(path \<times> entry) list"

datatype error =
    IOError string
  | InterfaceConversion string
  | NoTemplate string
  | EngineError string

text \<open>
  How a call of the program ends: it returned (\<open>Done\<close>), the process was terminated
  by \<open>log.Fatal\<close> or a panic (\<open>Halt\<close>, with the world as the process left it), or it is
  blocked in the preview server (\<open>Serving\<close>).
\<close>

datatype 'w outcome = Done 'w | Halt error 'w | Serving 'w

definition resolve :: "string \<Rightarrow> path" where
  "resolve name = filter (\<lambda>n. n \<noteq> []) (Split name (CHR ''/''))"

definition entryAt :: "'a world_scheme \<Rightarrow> path \<Rightarrow> entry option" where
  "entryAt w p = (if p = [] then Some (Dir True) else map_of (fs w) p)"

fun isDir :: "entry \<Rightarrow> bool" where
  "isDir (Dir r) = True"
| "isDir (File c) = False"

fun isFile :: "entry option \<Rightarrow> bool" where
  "isFile (Some (File c)) = True"
| "isFile e = False"

definition children :: "'a world_scheme \<Rightarrow> path \<Rightarrow> (string \<times> entry) list" where
  "children w d = map (\<lambda>(p, e). (last p, e)) (filter (\<lambda>(p, e). p \<noteq> [] \<and> butlast p = d) (fs w))"

text \<open>
  \<open>os.ReadDir\<close>: the entries of a directory, sorted by file name, each with its
  \<open>IsDir\<close> flag; an error when the path is not a directory that can be listed.
\<close>

definition ReadDir :: "string \<Rightarrow> 'a world_scheme \<Rightarrow> error + (string \<times> bool) list" where
  "ReadDir name w =
     (case entryAt w (resolve name) of
        Some (Dir True) \<Rightarrow>
          Inr (sort_key fst (map (\<lambda>(n, e). (n, isDir e)) (children w (resolve name))))
      | _ \<Rightarrow> Inl (IOError name))"

text \<open>
  \<open>os.MkdirAll\<close>: creates the directory and every missing parent; does nothing for a
  directory that exists; fails, creating nothing, when the path or one of its parents is
  a file.
\<close>

definition prefixes :: "path \<Rightarrow> path list" where
  "prefixes p = map (\<lambda>n. take n p) [1..<Suc (length p)]"

definition addDir :: "path \<Rightarrow> (path \<times> entry) list \<Rightarrow> (path \<times> entry) list" where
  "addDir q tab = (if map_of tab q = None then AList.update q (Dir True) tab else tab)"

definition MkdirAll :: "string \<Rightarrow> 'a world_scheme \<Rightarrow> error + 'a world_scheme" where
  "MkdirAll name w =
     (if list_ex (\<lambda>q. isFile (entryAt w q)) (prefixes (resolve name))
      then Inl (IOError name)
      else Inr (w\<lparr>fs := fold addDir (prefixes (resolve name)) (fs w)\<rparr>))"

text \<open>
  \<open>os.Create\<close>: creates the file, or truncates it when it exists; fails when the parent
  is not a directory or the path names a directory. The handle it returns is the path of
  the file; \<open>Write\<close> appends to the file behind a handle (\<open>File.WriteString\<close>, and the
  writes of \<open>io.Copy\<close> and of the template engine).
\<close>

definition Create :: "string \<Rightarrow> 'a world_scheme \<Rightarrow> error + (path \<times> 'a world_scheme)" where
  "Create name w =
     (let p = resolve name in
      if p = [] then Inl (IOError name)
      else (case entryAt w (butlast p) of
              Some (Dir r) \<Rightarrow>
                (case entryAt w p of
                   Some (Dir r') \<Rightarrow> Inl (IOError name)
                 | _ \<Rightarrow> Inr (p, w\<lparr>fs := AList.update p (File []) (fs w)\<rparr>))
            | _ \<Rightarrow> Inl (IOError name)))"

definition Write :: "path \<Rightarrow> string \<Rightarrow> 'a world_scheme \<Rightarrow> 'a world_scheme" where
  "Write h bytes w =
     (case map_of (fs w) h of
        Some (File c) \<Rightarrow> w\<lparr>fs := AList.update h (File (c @ bytes)) (fs w)\<rparr>
      | _ \<Rightarrow> w)"

text \<open>\<open>os.ReadFile\<close>: the bytes of a file; an error for a directory or a missing file.\<close>

definition ReadFile :: "string \<Rightarrow> 'a world_scheme \<Rightarrow> error + string" where
  "ReadFile name w =
     (case entryAt w (resolve name) of
        Some (File c) \<Rightarrow> Inr c
      | _ \<Rightarrow> Inl (IOError name))"

text \<open>
  \<open>os.Open\<close> succeeds on every path that exists, a directory included; reading from the
  handle of a directory fails.
\<close>

definition Open :: "string \<Rightarrow> 'a world_scheme \<Rightarrow> error + path" where
  "Open name w =
     (case entryAt w (resolve name) of
        None \<Rightarrow> Inl (IOError name)
      | Some e \<Rightarrow> Inr (resolve name))"

text \<open>\<open>os.Remove\<close>: removes a file or an empty directory.\<close>

definition Remove :: "string \<Rightarrow> 'a world_scheme \<Rightarrow> error + 'a world_scheme" where
  "Remove name w =
     (let p = resolve name in
      if p = [] then Inl (IOError name)
      else (case entryAt w p of
              None \<Rightarrow> Inl (IOError name)
            | Some (File c) \<Rightarrow> Inr (w\<lparr>fs := AList.delete p (fs w)\<rparr>)
            | Some (Dir r) \<Rightarrow>
                if children w p = [] then Inr (w\<lparr>fs := AList.delete p (fs w)\<rparr>)
                else Inl (IOError name)))"

text \<open>
  \<open>os.RemoveAll\<close>: removes the path and everything below it, and succeeds when the path
  does not exist. A directory that cannot be listed can only be removed when it is empty;
  when one has entries, \<open>RemoveAll\<close> removes all it can (everything but such
  directories, what is below them and the directories above them) and returns an error.
\<close>

definition blocked :: "'a world_scheme \<Rightarrow> path \<Rightarrow> path list" where
  "blocked w p =
     map fst (filter (\<lambda>(u, e). e = Dir False \<and> prefix p u \<and> children w u \<noteq> []) (fs w))"

definition RemoveAll :: "string \<Rightarrow> 'a world_scheme \<Rightarrow> error option \<times> 'a world_scheme" where
  "RemoveAll name w =
     (let p = resolve name; bs = blocked w p in
      if p = [] then (None, w)
      else if bs = [] then (None, w\<lparr>fs := filter (\<lambda>(q, e). \<not> prefix p q) (fs w)\<rparr>)
      else (Some (IOError name),
            w\<lparr>fs := filter (\<lambda>(q, e). \<not> prefix p q \<or> list_ex (\<lambda>u. prefix q u \<or> prefix u q) bs)
                      (fs w)\<rparr>))"

text \<open>
  \<open>filepath.Glob\<close>, for a pattern \<open>dir + "*"\<close> whose directory part \<open>dir\<close> ends in a
  slash and has no pattern characters (the two patterns of \<open>generateTemplates\<close>): the
  paths of all entries of the directory, sorted; no entries, and no error, when the
  directory cannot be listed. \<open>filepath.Base\<close> is the last element of a path, and
  \<open>filepath.Dir\<close> what comes before the last slash (Go also cleans the result, which does
  not change the directory it names).
\<close>

definition GlobStar :: "string \<Rightarrow> 'a world_scheme \<Rightarrow> string list" where
  "GlobStar dir w =
     (case ReadDir dir w of
        Inl err \<Rightarrow> []
      | Inr items \<Rightarrow> map (\<lambda>(n, d). dir @ n) items)"

definition Base :: "string \<Rightarrow> string" where
  "Base name = finalSegment name"

definition DirOf :: "string \<Rightarrow> string" where
  "DirOf name = rev (dropWhile (\<lambda>c. c \<noteq> CHR ''/'') (rev name))"

text \<open>The files of a world, each with its bytes.\<close>

definition filesOf :: "'a world_scheme \<Rightarrow> (path \<times> string) set" where
  "filesOf w = {(q, c). entryAt w q = Some (File c)}"

section \<open>The engines\<close>

text \<open>
  The markdown converter, the template engine, the TypeScript transpiler and the HTTP
  server are libraries outside the repository; they are parameters of the model.

  A value of a YAML front matter, as Go's \<open>any\<close>: \<open>Nil\<close> is the nil interface, which is
  also what indexing a map with a missing key gives.
\<close>

datatype any = Nil | Bool bool | Str string | Num int | Seq "any list" | MapAny "(any \<times> any) list"

type_synonym metadata = "(string \<times> any) list"

definition lookupMeta :: "metadata \<Rightarrow> string \<Rightarrow> any" where
  "lookupMeta metaData key = (case map_of metaData key of None \<Rightarrow> Nil | Some v \<Rightarrow> v)"

text \<open>The record a template is executed on (the anonymous struct of \<open>generateHtmlFile\<close>).\<close>

record page =
  Title :: string
  Summary :: string
  Body :: string
  PageParams :: "(any \<times> any) list"

text \<open>
  A compiled template set: executing the template of a given name on a page writes some
  output and may then fail.
\<close>

type_synonym template = "string \<Rightarrow> page \<Rightarrow> string \<times> error option"

text \<open>
  \<open>convert\<close> is \<open>goldmark.Markdown.Convert\<close> together with \<open>meta.Get\<close>: the rendered
  HTML and the front matter of a source text, or an error. \<open>parseTemplates\<close> is the parser
  behind \<open>template.ParseFiles\<close>, from the names and contents of the files.
  \<open>transpileString\<close> is \<open>typescript.TranspileString\<close>. \<open>listenAndServe\<close> is the error
  with which \<open>http.ListenAndServe\<close> returns at once, or \<open>None\<close> when it serves.
\<close>

record engines =
  convert :: "string \<Rightarrow> error + (string \<times> metadata)"
  parseTemplates :: "(string \<times> string) list \<Rightarrow> error + template"
  transpileString :: "string \<Rightarrow> error + string"
  listenAndServe :: "error option"

section \<open>The build pipeline of \<open>grafe.go\<close>\<close>

text \<open>
  \<open>check(err)\<close> is \<open>log.Fatal\<close> on an error: in the model every call that can fail is
  followed by the case distinction on its result, with \<open>Halt\<close> for the error.

  \<open>walk\<close>: the directory is listed once, when the call starts; the callback then runs
  on the world as the earlier callbacks left it, and a callback that ends the process ends
  the walk. The natural number bounds the depth of the recursion: \<open>None\<close> is a walk
  that did not finish within it.
\<close>

fun walk :: "nat \<Rightarrow> string \<Rightarrow> (string \<Rightarrow> 'a world_scheme \<Rightarrow> 'a world_scheme outcome) \<Rightarrow>
    'a world_scheme \<Rightarrow> 'a world_scheme outcome option"
and walkItems :: "nat \<Rightarrow> string \<Rightarrow> (string \<Rightarrow> 'a world_scheme \<Rightarrow> 'a world_scheme outcome) \<Rightarrow>
    (string \<times> bool) list \<Rightarrow> 'a world_scheme \<Rightarrow> 'a world_scheme outcome option" where
  "walk 0 dir fileFunction w = None"
| "walk (Suc n) dir fileFunction w =
     walkItems n dir fileFunction
       (case ReadDir dir w of Inl err \<Rightarrow> [] | Inr items \<Rightarrow> items) w"
| "walkItems n dir fileFunction [] w = Some (Done w)"
| "walkItems n dir fileFunction (item # items) w =
     (if \<not> snd item then
        (case fileFunction (dir @ ''/'' @ fst item) w of
           Done w' \<Rightarrow> walkItems n dir fileFunction items w'
         | r \<Rightarrow> Some r)
      else
        (case walk n (dir @ ''/'' @ fst item) fileFunction w of
           Some (Done w') \<Rightarrow> walkItems n dir fileFunction items w'
         | r \<Rightarrow> r))"

definition createDirectoryPath :: "string \<Rightarrow> 'a world_scheme \<Rightarrow> 'a world_scheme outcome" where
  "createDirectoryPath path w =
     (case MkdirAll (DirOf path) w of Inl err \<Rightarrow> Halt err w | Inr w' \<Rightarrow> Done w')"

definition copyFile :: "string \<Rightarrow> string \<Rightarrow> 'a world_scheme \<Rightarrow> 'a world_scheme outcome" where
  "copyFile sourcePath destinationPath w =
     (case Open sourcePath w of
        Inl err \<Rightarrow> Halt err w
      | Inr source \<Rightarrow>
          (case Create destinationPath w of
             Inl err \<Rightarrow> Halt err w
           | Inr (destination, w') \<Rightarrow>
               (case entryAt w' source of
                  Some (File c) \<Rightarrow> Done (Write destination c w')
                | _ \<Rightarrow> Halt (IOError sourcePath) w')))"

text \<open>
  \<open>generateHtmlFile\<close>. The type assertions \<open>x.(string)\<close> and \<open>x.(map[any]any)\<close> panic
  on a value of another type; they are evaluated in the order of the source: \<open>Title\<close>,
  \<open>Summary\<close>, \<open>Params\<close>, then \<open>Template\<close>.
\<close>

definition generateHtmlFile :: "(string \<rightharpoonup> template) \<Rightarrow> (string \<Rightarrow> error + (string \<times> metadata)) \<Rightarrow>
    string \<Rightarrow> string \<Rightarrow> 'a world_scheme \<Rightarrow> 'a world_scheme outcome" where
  "generateHtmlFile templates markdownWriter sourceMd outputFile w =
     (case markdownWriter sourceMd of
        Inl err \<Rightarrow> Halt err w
      | Inr (buf, metaData) \<Rightarrow>
          if lookupMeta metaData ''Draft'' = Bool True then Done w
          else
            (case createDirectoryPath outputFile w of
               Done w1 \<Rightarrow>
                 (case Create outputFile w1 of
                    Inl err \<Rightarrow> Halt err w1
                  | Inr (file, w2) \<Rightarrow>
                      (let params = (case lookupMeta metaData ''Params'' of
                                       Nil \<Rightarrow> MapAny []
                                     | v \<Rightarrow> v)
                       in case lookupMeta metaData ''Title'' of
                            Str title \<Rightarrow>
                              (case lookupMeta metaData ''Summary'' of
                                 Str summary \<Rightarrow>
                                   (case params of
                                      MapAny pageParams \<Rightarrow>
                                        (case lookupMeta metaData ''Template'' of
                                           Str templateName \<Rightarrow>
                                             (let data = \<lparr>Title = title, Summary = summary,
                                                           Body = buf, PageParams = pageParams\<rparr>;
                                                  pageTemplateFile = addExtension templateName ''.html''
                                              in case templates pageTemplateFile of
                                                   None \<Rightarrow> Halt (NoTemplate pageTemplateFile) w2
                                                 | Some pageTemplate \<Rightarrow>
                                                     (case pageTemplate pageTemplateFile data of
                                                        (out, None) \<Rightarrow> Done (Write file out w2)
                                                      | (out, Some err) \<Rightarrow>
                                                          Halt err (Write file out w2)))
                                         | v \<Rightarrow> Halt (InterfaceConversion ''Template'') w2)
                                    | v \<Rightarrow> Halt (InterfaceConversion ''Params'') w2)
                               | v \<Rightarrow> Halt (InterfaceConversion ''Summary'') w2)
                          | v \<Rightarrow> Halt (InterfaceConversion ''Title'') w2))
             | r \<Rightarrow> r))"

definition transpileTypescriptFile :: "engines \<Rightarrow> string \<Rightarrow> string \<Rightarrow> 'a world_scheme \<Rightarrow>
    'a world_scheme outcome" where
  "transpileTypescriptFile eng tsFilePath jsOutputPath w =
     (case ReadFile tsFilePath w of
        Inl err \<Rightarrow> Halt err w
      | Inr tsCode \<Rightarrow>
          (case transpileString eng tsCode of
             Inl err \<Rightarrow> Halt err w
           | Inr transpiled \<Rightarrow>
               (case Create jsOutputPath w of
                  Inl err \<Rightarrow> Halt err w
                | Inr (outputFile, w') \<Rightarrow> Done (Write outputFile transpiled w'))))"

text \<open>
  \<open>generateTemplates\<close>: \<open>template.ParseFiles\<close> reads the files and parses them;
  \<open>template.Must\<close> panics on its error. \<open>loadLayouts\<close> is the loop over the layouts.
\<close>

fun readFiles :: "string list \<Rightarrow> 'a world_scheme \<Rightarrow> error + (string \<times> string) list" where
  "readFiles [] w = Inr []"
| "readFiles (name # names) w =
     (case ReadFile name w of
        Inl err \<Rightarrow> Inl err
      | Inr c \<Rightarrow>
          (case readFiles names w of
             Inl err \<Rightarrow> Inl err
           | Inr cs \<Rightarrow> Inr ((name, c) # cs)))"

definition ParseFiles :: "engines \<Rightarrow> string list \<Rightarrow> 'a world_scheme \<Rightarrow> error + template" where
  "ParseFiles eng files w =
     (case readFiles files w of
        Inl err \<Rightarrow> Inl err
      | Inr contents \<Rightarrow> parseTemplates eng contents)"

fun loadLayouts :: "engines \<Rightarrow> string list \<Rightarrow> string list \<Rightarrow> (string \<rightharpoonup> template) \<Rightarrow>
    'a world_scheme \<Rightarrow> error + (string \<rightharpoonup> template)" where
  "loadLayouts eng includes [] templates w = Inr templates"
| "loadLayouts eng includes (layout # layouts) templates w =
     (case ParseFiles eng (includes @ [layout]) w of
        Inl err \<Rightarrow> Inl err
      | Inr t \<Rightarrow> loadLayouts eng includes layouts (templates(Base layout \<mapsto> t)) w)"

definition generateTemplates :: "engines \<Rightarrow> string \<Rightarrow> 'a world_scheme \<Rightarrow>
    error + (string \<rightharpoonup> template)" where
  "generateTemplates eng directory w =
     (let templatesDir = directory;
          layouts = GlobStar (templatesDir @ ''layouts/'') w;
          includes = GlobStar (templatesDir @ ''includes/'') w
      in loadLayouts eng includes layouts Map.empty w)"

definition convertContentFile :: "(string \<rightharpoonup> template) \<Rightarrow> (string \<Rightarrow> error + (string \<times> metadata)) \<Rightarrow>
    string \<Rightarrow> 'a world_scheme \<Rightarrow> 'a world_scheme outcome" where
  "convertContentFile templates markdownWriter fileName w =
     (if getExtension fileName = ''.md'' then
        (case ReadFile fileName w of
           Inl err \<Rightarrow> Halt err w
         | Inr fileData \<Rightarrow>
             generateHtmlFile templates markdownWriter fileData
               (''public/'' @ TrimPrefix (changeExtension fileName ''.html'') ''content/'') w)
      else
        (let newFileName = TrimPrefix fileName ''content/'' in
         case createDirectoryPath (''public/'' @ newFileName) w of
           Done w' \<Rightarrow> copyFile fileName (''public/'' @ newFileName) w'
         | r \<Rightarrow> r))"

definition convertContentDirectory :: "nat \<Rightarrow> (string \<rightharpoonup> template) \<Rightarrow>
    (string \<Rightarrow> error + (string \<times> metadata)) \<Rightarrow> 'a world_scheme \<Rightarrow> 'a world_scheme outcome option" where
  "convertContentDirectory n templates markdownWriter w =
     walk n ''content'' (convertContentFile templates markdownWriter) w"

definition copyStaticFile :: "string \<Rightarrow> string \<Rightarrow> 'a world_scheme \<Rightarrow> 'a world_scheme outcome" where
  "copyStaticFile directoryToCopy fileName w =
     (let newFileName = TrimPrefix fileName directoryToCopy in
      case createDirectoryPath (''public/'' @ newFileName) w of
        Done w' \<Rightarrow> copyFile fileName (''public/'' @ newFileName) w'
      | r \<Rightarrow> r)"

definition copyStaticDirectory :: "nat \<Rightarrow> string \<Rightarrow> 'a world_scheme \<Rightarrow> 'a world_scheme outcome option" where
  "copyStaticDirectory n directoryToCopy w =
     walk n directoryToCopy (copyStaticFile directoryToCopy) w"

definition transpileFile :: "engines \<Rightarrow> string \<Rightarrow> 'a world_scheme \<Rightarrow> 'a world_scheme outcome" where
  "transpileFile eng fileName w =
     (if getExtension fileName \<noteq> ''.ts'' then Done w
      else
        (let newFileName = changeExtension fileName ''.js'' in
         case createDirectoryPath (''public/'' @ newFileName) w of
           Done w1 \<Rightarrow>
             (case transpileTypescriptFile eng fileName newFileName w1 of
                Done w2 \<Rightarrow>
                  (case Remove fileName w2 of
                     Inl err \<Rightarrow> Halt err w2
                   | Inr w3 \<Rightarrow> Done w3)
              | r \<Rightarrow> r)
         | r \<Rightarrow> r))"

definition transpileTypescript :: "nat \<Rightarrow> engines \<Rightarrow> 'a world_scheme \<Rightarrow> 'a world_scheme outcome option" where
  "transpileTypescript n eng w = walk n ''public'' (transpileFile eng) w"

definition startHTTPServer :: "engines \<Rightarrow> string \<Rightarrow> 'a world_scheme \<Rightarrow> 'a world_scheme outcome" where
  "startHTTPServer eng directory w =
     (case listenAndServe eng of None \<Rightarrow> Serving w | Some err \<Rightarrow> Halt err w)"

text \<open>
  \<open>main\<close>. \<open>andThen\<close> is the sequencing of two steps of the process: the second runs
  when the first returned.
\<close>

definition andThen :: "'w outcome option \<Rightarrow> ('w \<Rightarrow> 'w outcome option) \<Rightarrow> 'w outcome option" where
  "andThen r next = (case r of Some (Done w) \<Rightarrow> next w | _ \<Rightarrow> r)"

definition removePublic :: "'a world_scheme \<Rightarrow> 'a world_scheme outcome" where
  "removePublic w =
     (case RemoveAll ''public'' w of (None, w') \<Rightarrow> Done w' | (Some err, w') \<Rightarrow> Halt err w')"

definition createMarker :: "'a world_scheme \<Rightarrow> 'a world_scheme outcome" where
  "createMarker w =
     (case Create ''public/.nojekyll'' w of Inl err \<Rightarrow> Halt err w | Inr (file, w') \<Rightarrow> Done w')"

definition main :: "nat \<Rightarrow> engines \<Rightarrow> 'a world_scheme \<Rightarrow> 'a world_scheme outcome option" where
  "main n eng w =
     (case generateTemplates eng ''theme/templates/'' w of
        Inl err \<Rightarrow> Some (Halt err w)
      | Inr templates \<Rightarrow>
          (let markdownWriter = convert eng in
           andThen (Some (removePublic w)) (\<lambda>w.
           andThen (convertContentDirectory n templates markdownWriter w) (\<lambda>w.
           andThen (copyStaticDirectory n ''theme/static'' w) (\<lambda>w.
           andThen (copyStaticDirectory n ''static'' w) (\<lambda>w.
           andThen (transpileTypescript n eng w) (\<lambda>w.
           andThen (Some (createMarker w)) (\<lambda>w.
           Some (startHTTPServer eng ''public'' w)))))))))"

text \<open>
  The front matter of a page that can be rendered: \<open>Title\<close>, \<open>Summary\<close> and
  \<open>Template\<close> are present and strings.
\<close>

definition requiredFieldsValid :: "metadata \<Rightarrow> bool" where
  "requiredFieldsValid metaData \<longleftrightarrow>
     (\<exists>s. lookupMeta metaData ''Title'' = Str s) \<and>
     (\<exists>s. lookupMeta metaData ''Summary'' = Str s) \<and>
     (\<exists>s. lookupMeta metaData ''Template'' = Str s)"

section \<open>Notions for stating what a walk visits\<close>

text \<open>
  A file name as a directory can hold it: not empty and without a slash. A world is well
  formed when no path is listed twice and every component of every path is such a name.
  Every operation above keeps a world well formed.
\<close>

definition validName :: "string \<Rightarrow> bool" where
  "validName n \<longleftrightarrow> n \<noteq> [] \<and> CHR ''/'' \<notin> set n"

definition wellFormed :: "'a world_scheme \<Rightarrow> bool" where
  "wellFormed w \<longleftrightarrow>
     distinct (map fst (fs w)) \<and>
     (\<forall>p \<in> set (map fst (fs w)). p \<noteq> [] \<and> (\<forall>n \<in> set p. validName n))"

text \<open>The length of the longest path of a world.\<close>

definition depth :: "'a world_scheme \<Rightarrow> nat" where
  "depth w = foldr (\<lambda>(p, e) m. max (length p) m) (fs w) 0"

text \<open>
  \<open>walkName dir ns\<close> is the path string that \<open>walk\<close>, started on \<open>dir\<close>, forms for
  the entry reached through the names \<open>ns\<close>: \<open>dir/n1/.../nk\<close>. \<open>reaches w d ns\<close>
  says that the walk gets there: \<open>d\<close> and every directory on the way down to the entry
  are directories that can be listed.
\<close>

definition walkName :: "string \<Rightarrow> string list \<Rightarrow> string" where
  "walkName dir ns = foldl (\<lambda>a n. a @ ''/'' @ n) dir ns"

definition reaches :: "'a world_scheme \<Rightarrow> path \<Rightarrow> string list \<Rightarrow> bool" where
  "reaches w d ns \<longleftrightarrow> (\<forall>k < length ns. entryAt w (d @ take k ns) = Some (Dir True))"

text \<open>
  The path strings of the files that a walk started on \<open>dir\<close> gets to: every entry
  below \<open>dir\<close> that is a file and lies behind directories that can be listed.
\<close>

definition filesReached :: "'a world_scheme \<Rightarrow> string \<Rightarrow> string set" where
  "filesReached w dir =
     {walkName dir ns | ns.
        ns \<noteq> [] \<and> reaches w (resolve dir) ns \<and> isFile (entryAt w (resolve dir @ ns))}"

text \<open>
  A world extended by the list of the paths a callback was called on, and the callback
  that does nothing but note its argument there.
\<close>

record traced = world +
  visited :: "string list"

definition recordVisit :: "string \<Rightarrow> traced \<Rightarrow> traced outcome" where
  "recordVisit filePath w = Done (w\<lparr>visited := visited w @ [filePath]\<rparr>)"

text \<open>
  The files that the loop of \<open>walk\<close> gets to through one item of a listing, and one
  iteration of that loop.
\<close>

definition itemFiles :: "'a world_scheme \<Rightarrow> string \<Rightarrow> string \<times> bool \<Rightarrow> string set" where
  "itemFiles w dir item =
     (if snd item then filesReached w (dir @ ''/'' @ fst item) else {dir @ ''/'' @ fst item})"

definition runItem :: "nat \<Rightarrow> string \<Rightarrow> (string \<Rightarrow> 'a world_scheme \<Rightarrow> 'a world_scheme outcome) \<Rightarrow>
    string \<times> bool \<Rightarrow> 'a world_scheme \<Rightarrow> 'a world_scheme outcome option" where
  "runItem n dir fileFunction item w =
     (if \<not> snd item then Some (fileFunction (dir @ ''/'' @ fst item) w)
      else walk n (dir @ ''/'' @ fst item) fileFunction w)"

section \<open>Example engines and worlds\<close>

text \<open>
  Concrete engines and small sites on which the theorems below are instantiated: a
  converter that wraps the source in a paragraph and reports a fixed front matter, a
  template engine whose templates print the title and the body, and a transpiler that
  marks its input.
\<close>

definition exampleEngines :: engines where
  "exampleEngines =
     \<lparr>convert = (\<lambda>s. Inr (''<p>'' @ s @ ''</p>'',
                  [(''Title'', Str ''T''), (''Summary'', Str ''S''), (''Template'', Str ''default'')])),
      parseTemplates = (\<lambda>files. Inr (\<lambda>name data. (Title data @ '': '' @ Body data, None))),
      transpileString = (\<lambda>s. Inr (''js:'' @ s)),
      listenAndServe = None\<rparr>"

text \<open>A site with one project-static script and the output of an earlier build.\<close>

definition smallSite :: world where
  "smallSite =
     \<lparr>fs = [([''static''], Dir True), ([''static'', ''app.ts''], File ''let x''),
            ([''public''], Dir True), ([''public'', ''old.html''], File ''stale'')]\<rparr>"

text \<open>
  A site whose layouts directory holds a directory, which \<open>template.ParseFiles\<close>
  cannot read, and the output of an earlier build.
\<close>

definition staleWorld :: world where
  "staleWorld =
     \<lparr>fs = [([''theme''], Dir True), ([''theme'', ''templates''], Dir True),
            ([''theme'', ''templates'', ''layouts''], Dir True),
            ([''theme'', ''templates'', ''layouts'', ''partials''], Dir True),
            ([''public''], Dir True), ([''public'', ''old.html''], File ''stale'')]\<rparr>"

text \<open>
  A content tree with a directory that cannot be listed, in a world that notes the paths
  a callback is called on.
\<close>

definition lockedSite :: traced where
  "lockedSite =
     \<lparr>fs = [([''content''], Dir True), ([''content'', ''a.md''], File ''a''),
            ([''content'', ''sub''], Dir True), ([''content'', ''sub'', ''b.md''], File ''b''),
            ([''content'', ''locked''], Dir False),
            ([''content'', ''locked'', ''c.md''], File ''c'')],
      visited = []\<rparr>"

text \<open>An output tree that holds a script in a directory, and a style sheet.\<close>

definition scriptSite :: world where
  "scriptSite =
     \<lparr>fs = [([''public''], Dir True), ([''public'', ''style.css''], File ''body {}''),
            ([''public'', ''x''], Dir True), ([''public'', ''x'', ''y.ts''], File ''let x'')]\<rparr>"

text \<open>The same tree after the transpiler pass.\<close>

definition scriptSiteTranspiled :: world where
  "scriptSiteTranspiled =
     \<lparr>fs = [([''public''], Dir True), ([''public'', ''style.css''], File ''body {}''),
            ([''public'', ''x''], Dir True), ([''public'', ''public''], Dir True),
            ([''public'', ''public'', ''x''], Dir True),
            ([''public'', ''x'', ''y.js''], File ''js:let x'')]\<rparr>"
section \<open>Properties of the string functions\<close>

lemma splitFrom_nonempty: "splitFrom cur sep s \<noteq> []"
  by (induction s arbitrary: cur) auto

lemma Split_nonempty: "Split s sep \<noteq> []"
  by (simp add: Split_def splitFrom_nonempty)

lemma hd_splitFrom: "hd (splitFrom cur sep s) = cur @ takeWhile (\<lambda>c. c \<noteq> sep) s"
  by (induction s arbitrary: cur) auto

lemma last_splitFrom:
  "last (splitFrom cur sep s) =
     (if sep \<in> set s then rev (takeWhile (\<lambda>c. c \<noteq> sep) (rev s)) else cur @ s)"
proof (induction s arbitrary: cur)
  case Nil
  show ?case by simp
next
  case (Cons c cs)
  show ?case
  proof (cases "c = sep")
    case True
    then show ?thesis
      using Cons [of "[]"] by (auto simp: splitFrom_nonempty takeWhile_append takeWhile_eq_all_conv[THEN iffD2])
  next
    case False
    then show ?thesis
      using Cons [of "cur @ [c]"] by (auto simp: takeWhile_append)
  qed
qed

lemma hd_Split: "hd (Split s sep) = takeWhile (\<lambda>c. c \<noteq> sep) s"
  by (simp add: Split_def hd_splitFrom)

lemma last_Split: "last (Split s sep) = rev (takeWhile (\<lambda>c. c \<noteq> sep) (rev s))"
proof (cases "sep \<in> set s")
  case True
  then show ?thesis by (simp add: Split_def last_splitFrom)
next
  case False
  then have "takeWhile (\<lambda>c. c \<noteq> sep) (rev s) = rev s"
    by (auto simp: takeWhile_eq_all_conv)
  moreover from False have "last (Split s sep) = s"
    by (simp add: Split_def last_splitFrom)
  ultimately show ?thesis by (simp only: rev_rev_ident)
qed

lemma TrimLeftSpace_noop: "leadingSpace s = 0 \<Longrightarrow> TrimLeftSpace s = s"
  by (simp add: TrimLeftSpace.simps)

lemma TrimRightSpace_noop: "trailingSpace s = 0 \<Longrightarrow> TrimRightSpace s = s"
  by (simp add: TrimRightSpace.simps)

lemma leadingSpace_TrimLeftSpace: "leadingSpace (TrimLeftSpace s) = 0"
  by (induction s rule: TrimLeftSpace.induct) (subst TrimLeftSpace.simps, simp)

lemma trailingSpace_TrimRightSpace: "trailingSpace (TrimRightSpace s) = 0"
  by (induction s rule: TrimRightSpace.induct) (subst TrimRightSpace.simps, simp)

lemma suffix_TrimLeftSpace: "suffix (TrimLeftSpace s) s"
proof (induction s rule: TrimLeftSpace.induct)
  case (1 s)
  show ?case
  proof (cases "leadingSpace s = 0")
    case True
    then show ?thesis by (simp add: TrimLeftSpace_noop)
  next
    case False
    with 1 have "suffix (TrimLeftSpace (drop (leadingSpace s) s)) (drop (leadingSpace s) s)"
      by simp
    then have "suffix (TrimLeftSpace (drop (leadingSpace s) s)) s"
      by (meson suffix_drop suffix_order.trans)
    with False show ?thesis
      by (subst TrimLeftSpace.simps) simp
  qed
qed

lemma prefix_TrimRightSpace: "prefix (TrimRightSpace s) s"
proof (induction s rule: TrimRightSpace.induct)
  case (1 s)
  show ?case
  proof (cases "trailingSpace s = 0")
    case True
    then show ?thesis by (simp add: TrimRightSpace_noop)
  next
    case False
    with 1 have "prefix (TrimRightSpace (take (length s - trailingSpace s) s))
        (take (length s - trailingSpace s) s)"
      by simp
    then have "prefix (TrimRightSpace (take (length s - trailingSpace s) s)) s"
      by (meson take_is_prefix prefix_order.trans)
    with False show ?thesis
      by (subst TrimRightSpace.simps) simp
  qed
qed

lemma leadingSpace_prefix: "prefix t u \<Longrightarrow> leadingSpace u = 0 \<Longrightarrow> leadingSpace t = 0"
  using leadingSpace_cases [of t] leadingSpace_cases [of u]
  by (metis prefix_order.trans length_0_conv)

lemma trailingSpace_suffix: "suffix t u \<Longrightarrow> trailingSpace u = 0 \<Longrightarrow> trailingSpace t = 0"
  using trailingSpace_cases [of t] trailingSpace_cases [of u]
  by (metis suffix_order.trans length_0_conv)

lemma leadingSpace_TrimSpace: "leadingSpace (TrimSpace s) = 0"
  unfolding TrimSpace_def
  by (rule leadingSpace_prefix [OF prefix_TrimRightSpace leadingSpace_TrimLeftSpace])

lemma trailingSpace_TrimSpace: "trailingSpace (TrimSpace s) = 0"
  by (simp add: TrimSpace_def trailingSpace_TrimRightSpace)

lemma TrimSpace_noop: "leadingSpace s = 0 \<Longrightarrow> trailingSpace s = 0 \<Longrightarrow> TrimSpace s = s"
  by (simp add: TrimSpace_def TrimLeftSpace_noop TrimRightSpace_noop)

lemma suffix_finalSegment: "suffix (finalSegment s) s"
  unfolding finalSegment_def
  by (metis rev_rev_ident suffix_to_prefix takeWhile_is_prefix)

lemma finalSegment_no_slash: "CHR ''/'' \<notin> set (finalSegment s)"
  unfolding finalSegment_def
  by (metis (mono_tags, lifting) set_rev set_takeWhileD)

lemma finalSegment_append:
  "CHR ''/'' \<notin> set b \<Longrightarrow> finalSegment (a @ b) = finalSegment a @ b"
  unfolding finalSegment_def
  by (simp add: takeWhile_append takeWhile_eq_all_conv[THEN iffD2])

lemma last_Split_slash: "last (Split s (CHR ''/'')) = finalSegment s"
  by (simp add: last_Split finalSegment_def)

text \<open>The file name splits into a dot-free head and the extension.\<close>

lemma getExtension_decomp:
  "\<exists>h. finalSegment (TrimSpace p) = h @ getExtension p \<and> CHR ''.'' \<notin> set h \<and>
       leadingSpace h = 0"
proof -
  define seg where "seg = finalSegment (TrimSpace p)"
  define h where "h = takeWhile (\<lambda>c. c \<noteq> CHR ''.'') (TrimSpace seg)"
  have ext: "getExtension p = TrimPrefix seg h"
    by (simp add: getExtension_def Let_def last_Split_slash hd_Split seg_def h_def)
  have nodot: "CHR ''.'' \<notin> set h"
    unfolding h_def by (auto dest: set_takeWhileD)
  have "prefix h (TrimSpace seg)"
    unfolding h_def by (rule takeWhile_is_prefix)
  then have lead: "leadingSpace h = 0"
    by (rule leadingSpace_prefix) (rule leadingSpace_TrimSpace)
  show ?thesis
  proof (cases "prefix h seg")
    case True
    then have "seg = h @ getExtension p"
      by (auto simp: ext TrimPrefix_def prefix_def)
    with nodot lead show ?thesis
      unfolding seg_def by blast
  next
    case False
    then have "seg = [] @ getExtension p"
      by (simp add: ext TrimPrefix_def)
    moreover have "leadingSpace [] = 0"
      using leadingSpace_le [of "[]"] by simp
    ultimately show ?thesis
      unfolding seg_def by (metis empty_iff empty_set)
  qed
qed

lemma getExtension_first_dot:
  assumes "leadingSpace (finalSegment (TrimSpace p)) = 0"
  shows "getExtension p = dropWhile (\<lambda>c. c \<noteq> CHR ''.'') (finalSegment (TrimSpace p))"
proof -
  define seg where "seg = finalSegment (TrimSpace p)"
  have "trailingSpace seg = 0"
    unfolding seg_def
    by (rule trailingSpace_suffix [OF suffix_finalSegment trailingSpace_TrimSpace])
  with assms have "TrimSpace seg = seg"
    by (simp add: TrimSpace_noop seg_def)
  then have "getExtension p = TrimPrefix seg (takeWhile (\<lambda>c. c \<noteq> CHR ''.'') seg)"
    by (simp add: getExtension_def Let_def last_Split_slash hd_Split seg_def)
  also have "\<dots> = dropWhile (\<lambda>c. c \<noteq> CHR ''.'') seg"
    by (simp add: TrimPrefix_def takeWhile_is_prefix dropWhile_eq_drop)
  finally show ?thesis
    by (simp add: seg_def)
qed


lemma suffix_getExtension: "suffix (getExtension p) (finalSegment (TrimSpace p))"
  using getExtension_decomp [of p] by (auto simp: suffix_def)

lemma removeExtension_append: "TrimSpace p = removeExtension p @ getExtension p"
proof -
  have "suffix (getExtension p) (TrimSpace p)"
    using suffix_getExtension suffix_finalSegment by (rule suffix_order.trans)
  then show ?thesis
    by (auto simp: removeExtension_def TrimSuffix_def suffix_def)
qed

lemma spaceEncodings_dot_free: "e \<in> set spaceEncodings \<Longrightarrow> CHR ''.'' \<notin> set e"
  by (auto simp: spaceEncodings_def)

lemma leadingSpace_append_ext:
  assumes "leadingSpace a = 0" and "prefix ''.'' x"
  shows "leadingSpace (a @ x) = 0"
proof (rule ccontr)
  assume "leadingSpace (a @ x) \<noteq> 0"
  then obtain e where e: "e \<in> set spaceEncodings" "prefix e (a @ x)"
    using leadingSpace_cases [of "a @ x"] by auto
  from assms(1) have na: "\<not> prefix e a"
    using leadingSpace_cases [of a] e(1) by auto
  with e(2) obtain us where us: "e = a @ us" "prefix us x" "us \<noteq> []"
    by (auto simp: prefix_append)
  from assms(2) obtain y where "x = CHR ''.'' # y"
    by (auto simp: prefix_def)
  with us(2,3) have "CHR ''.'' \<in> set us"
    by (cases us) (auto simp: prefix_Cons)
  with us(1) spaceEncodings_dot_free [OF e(1)] show False
    by simp
qed

lemma trailingSpace_append_ext:
  assumes "trailingSpace x = 0" and "prefix ''.'' x"
  shows "trailingSpace (a @ x) = 0"
proof (rule ccontr)
  assume "trailingSpace (a @ x) \<noteq> 0"
  then obtain e where e: "e \<in> set spaceEncodings" "suffix e (a @ x)"
    using trailingSpace_cases [of "a @ x"] by auto
  from assms(1) have "\<not> suffix e x"
    using trailingSpace_cases [of x] e(1) by auto
  with e(2) obtain vs where "e = vs @ x"
    by (auto simp: suffix_append)
  moreover from assms(2) have "CHR ''.'' \<in> set x"
    by (auto simp: prefix_def)
  ultimately show False
    using spaceEncodings_dot_free [OF e(1)] by simp
qed

lemma removeExtension_intermediate_ext:
  assumes x: "isExtension x"
  shows "removeExtension (removeExtension p @ x) = removeExtension p"
proof -
  from x have dot: "prefix ''.'' x" and noslash_x: "CHR ''/'' \<notin> set x"
    and trail: "trailingSpace x = 0"
    by (simp_all add: isExtension_def)
  define t where "t = TrimSpace p"
  define e where "e = getExtension p"
  define r where "r = removeExtension p"
  obtain h where h: "finalSegment t = h @ e" "CHR ''.'' \<notin> set h" "leadingSpace h = 0"
    using getExtension_decomp [of p] unfolding t_def e_def by blast
  have t: "t = r @ e"
    unfolding t_def r_def e_def by (rule removeExtension_append)
  obtain d where d: "t = d @ finalSegment t"
    using suffix_finalSegment [of t] by (auto simp: suffix_def)
  with h(1) t have r: "r = d @ h"
    by simp
  have noslash: "CHR ''/'' \<notin> set (h @ e)"
    using finalSegment_no_slash [of t] h(1) by simp
  have "finalSegment (d @ (h @ e)) = finalSegment d @ (h @ e)"
    using noslash by (rule finalSegment_append)
  with d h(1) have fd: "finalSegment d = []"
    by simp
  have fr: "finalSegment r = h"
    using noslash fd by (simp add: r finalSegment_append)
  have "leadingSpace t = 0"
    unfolding t_def by (rule leadingSpace_TrimSpace)
  moreover have "prefix r t"
    by (simp add: t)
  ultimately have "leadingSpace r = 0"
    by (rule leadingSpace_prefix [rotated])
  then have q: "TrimSpace (r @ x) = r @ x"
    using dot trail by (intro TrimSpace_noop leadingSpace_append_ext trailingSpace_append_ext)
  have seg: "finalSegment (r @ x) = h @ x"
    using noslash_x by (simp add: finalSegment_append fr)
  have hx: "TrimSpace (h @ x) = h @ x"
    using h(3) dot trail
    by (intro TrimSpace_noop leadingSpace_append_ext trailingSpace_append_ext)
  from dot obtain y where y: "x = CHR ''.'' # y"
    by (auto simp: prefix_def)
  have "takeWhile (\<lambda>c. c \<noteq> CHR ''.'') (h @ x) = h"
    using h(2) by (simp add: y takeWhile_append takeWhile_eq_all_conv[THEN iffD2])
  then have "getExtension (r @ x) = x"
    by (simp add: getExtension_def Let_def last_Split_slash hd_Split q seg hx TrimPrefix_def)
  then have "removeExtension (r @ x) = r"
    by (simp add: removeExtension_def q TrimSuffix_def suffix_def)
  then show ?thesis
    by (simp add: r_def)
qed

text \<open>Trimming does not pass a slash.\<close>

lemma spaceEncodings_slash_free: "e \<in> set spaceEncodings \<Longrightarrow> CHR ''/'' \<notin> set e"
  by (auto simp: spaceEncodings_def)

lemma find_cong_set: "(\<And>x. x \<in> set xs \<Longrightarrow> P x = Q x) \<Longrightarrow> find P xs = find Q xs"
  by (induction xs) auto

lemma trailingSpace_append_slash: "trailingSpace (x @ CHR ''/'' # y) = trailingSpace y"
proof -
  have "suffix e (x @ CHR ''/'' # y) = suffix e y" if "e \<in> set spaceEncodings" for e
  proof
    assume "suffix e (x @ CHR ''/'' # y)"
    then have "suffix e (CHR ''/'' # y) \<or> (\<exists>e'. e = e' @ CHR ''/'' # y)"
      by (auto simp: suffix_append)
    then show "suffix e y"
      using spaceEncodings_slash_free [OF that] by (auto simp: suffix_Cons)
  next
    assume "suffix e y"
    then show "suffix e (x @ CHR ''/'' # y)"
      by (metis suffix_Cons suffix_appendI append.simps(2) append_assoc suffix_def)
  qed
  then have "find (\<lambda>e. suffix e (x @ CHR ''/'' # y)) spaceEncodings
      = find (\<lambda>e. suffix e y) spaceEncodings"
    by (rule find_cong_set)
  then show ?thesis
    by (simp add: trailingSpace_def)
qed

lemma TrimRightSpace_append_slash:
  "TrimRightSpace (x @ CHR ''/'' # y) = x @ CHR ''/'' # TrimRightSpace y"
proof (induction y rule: TrimRightSpace.induct)
  case (1 y)
  show ?case
  proof (cases "trailingSpace y = 0")
    case True
    then show ?thesis
      by (simp add: TrimRightSpace_noop trailingSpace_append_slash)
  next
    case False
    let ?k = "trailingSpace y"
    have k: "?k \<le> length y" by (rule trailingSpace_le)
    have "TrimRightSpace (x @ CHR ''/'' # y)
        = TrimRightSpace (take (length (x @ CHR ''/'' # y) - ?k) (x @ CHR ''/'' # y))"
      using False by (subst TrimRightSpace.simps) (simp add: trailingSpace_append_slash)
    also have "take (length (x @ CHR ''/'' # y) - ?k) (x @ CHR ''/'' # y)
        = x @ CHR ''/'' # take (length y - ?k) y"
      using k by (simp add: Suc_diff_le)
    also have "TrimRightSpace (x @ CHR ''/'' # take (length y - ?k) y)
        = x @ CHR ''/'' # TrimRightSpace (take (length y - ?k) y)"
      using False by (rule "1.IH")
    also have "TrimRightSpace (take (length y - ?k) y) = TrimRightSpace y"
      using False by (subst (2) TrimRightSpace.simps) simp
    finally show ?thesis .
  qed
qed

lemma leadingSpace_public: "leadingSpace (''public'' @ s) = 0"
proof -
  have "\<not> prefix e (''public'' @ s)" if "e \<in> set spaceEncodings" for e
    using that by (auto simp: spaceEncodings_def prefix_Cons)
  then show ?thesis
    using leadingSpace_cases [of "''public'' @ s"] by auto
qed

section \<open>Properties of the file system operations\<close>

lemma map_of_addDir:
  "map_of (addDir q tab) k = (if k = q \<and> map_of tab q = None then Some (Dir True) else map_of tab k)"
  by (simp add: addDir_def update_conv')

lemma map_of_fold_addDir:
  "map_of (fold addDir ps tab) k =
     (if k \<in> set ps \<and> map_of tab k = None then Some (Dir True) else map_of tab k)"
  by (induction ps arbitrary: tab) (auto simp: map_of_addDir)

lemma Nil_notin_prefixes: "[] \<notin> set (prefixes p)"
  by (auto simp: prefixes_def)

lemma entryAt_MkdirAll:
  assumes "MkdirAll name w = Inr w'"
  shows "entryAt w' q =
     (if q \<in> set (prefixes (resolve name)) \<and> entryAt w q = None then Some (Dir True)
      else entryAt w q)"
  using assms Nil_notin_prefixes [of "resolve name"]
  by (auto simp: MkdirAll_def entryAt_def map_of_fold_addDir split: if_splits)

lemma entryAt_Create:
  assumes "Create name w = Inr (h, w')"
  shows "h = resolve name \<and> h \<noteq> [] \<and>
     entryAt w' q = (if q = h then Some (File []) else entryAt w q)"
  using assms
  by (auto simp: Create_def Let_def entryAt_def update_conv'
      split: if_splits option.splits entry.splits)

lemma entryAt_Write:
  "entryAt (Write h bytes w) q =
     (case entryAt w h of
        Some (File c) \<Rightarrow> if q = h \<and> h \<noteq> [] then Some (File (c @ bytes)) else entryAt w q
      | _ \<Rightarrow> entryAt w q)"
  by (auto simp: Write_def entryAt_def update_conv' split: option.splits entry.splits)

lemma entryAt_Remove:
  assumes "Remove name w = Inr w'"
  shows "entryAt w' q = (if q = resolve name then None else entryAt w q)"
  using assms
  by (auto simp: Remove_def Let_def entryAt_def delete_conv'
      split: if_splits option.splits entry.splits)

lemma map_of_filter_keys:
  "map_of (filter (\<lambda>(k, v). P k) xs) k = (if P k then map_of xs k else None)"
  by (induction xs) auto

lemma createDirectoryPath_cases:
  "(\<exists>e. createDirectoryPath path w = Halt e w \<and> MkdirAll (DirOf path) w = Inl e) \<or>
   (\<exists>w'. createDirectoryPath path w = Done w' \<and> MkdirAll (DirOf path) w = Inr w')"
  by (auto simp: createDirectoryPath_def split: sum.splits)

lemma filesOf_MkdirAll: "MkdirAll name w = Inr w' \<Longrightarrow> filesOf w' = filesOf w"
  by (auto simp: filesOf_def entryAt_MkdirAll split: if_splits)

lemma filesOf_createDirectoryPath:
  "createDirectoryPath path w = Done w' \<Longrightarrow> filesOf w' = filesOf w"
  using createDirectoryPath_cases [of path w] by (auto simp: filesOf_MkdirAll)

lemma filesOf_Create:
  "Create name w = Inr (h, w') \<Longrightarrow>
     filesOf w' = {(q, c). (q, c) \<in> filesOf w \<and> q \<noteq> resolve name} \<union> {(resolve name, [])}"
  using entryAt_Create [of name w h w'] by (auto simp: filesOf_def split: if_splits)

lemma filesOf_Write_created:
  assumes "Create name w = Inr (h, w')"
  shows "filesOf (Write h bytes w') =
     {(q, c). (q, c) \<in> filesOf w \<and> q \<noteq> resolve name} \<union> {(resolve name, bytes)}"
proof -
  have hh: "h = resolve name" and r: "resolve name \<noteq> []"
    and ent: "\<And>q. entryAt w' q = (if q = resolve name then Some (File []) else entryAt w q)"
    using entryAt_Create [OF assms] by auto
  show ?thesis
    unfolding hh by (auto simp: filesOf_def entryAt_Write ent r split: if_splits)
qed

section \<open>Properties of \<open>generateHtmlFile\<close>\<close>

lemma generateHtmlFile_draft:
  assumes "markdownWriter sourceMd = Inr (buf, metaData)"
    and "lookupMeta metaData ''Draft'' = Bool True"
  shows "generateHtmlFile templates markdownWriter sourceMd outputFile w = Done w"
  using assms by (simp add: generateHtmlFile_def)

lemma invalid_fields_halt:
  assumes conv: "markdownWriter sourceMd = Inr (buf, metaData)"
    and nodraft: "lookupMeta metaData ''Draft'' \<noteq> Bool True"
    and invalid: "\<not> requiredFieldsValid metaData"
    and mk: "createDirectoryPath outputFile w = Done w1"
    and cr: "Create outputFile w1 = Inr (file, w2)"
  shows "\<exists>key. generateHtmlFile templates markdownWriter sourceMd outputFile w
           = Halt (InterfaceConversion key) w2"
  using assms
  by (auto simp: generateHtmlFile_def requiredFieldsValid_def Let_def split: any.splits)

lemma invalid_fields_halt_any:
  assumes conv: "markdownWriter sourceMd = Inr (buf, metaData)"
    and nodraft: "lookupMeta metaData ''Draft'' \<noteq> Bool True"
    and invalid: "\<not> requiredFieldsValid metaData"
  shows "\<exists>e w'. generateHtmlFile templates markdownWriter sourceMd outputFile w = Halt e w'"
proof -
  consider e where "createDirectoryPath outputFile w = Halt e w"
    | w1 where "createDirectoryPath outputFile w = Done w1"
    using createDirectoryPath_cases [of outputFile w] by blast
  then show ?thesis
  proof cases
    case 1
    with conv nodraft show ?thesis
      by (simp add: generateHtmlFile_def)
  next
    case 2
    show ?thesis
    proof (cases "Create outputFile w1")
      case (Inl e)
      with 2 conv nodraft show ?thesis
        by (simp add: generateHtmlFile_def)
    next
      case (Inr r)
      then obtain h w2 where "Create outputFile w1 = Inr (h, w2)"
        by (cases r) auto
      with conv nodraft invalid 2 show ?thesis
        using invalid_fields_halt [of markdownWriter sourceMd buf metaData outputFile w w1 h w2 templates]
        by blast
    qed
  qed
qed

lemma generateHtmlFile_Done:
  assumes conv: "markdownWriter sourceMd = Inr (buf, metaData)"
    and nodraft: "lookupMeta metaData ''Draft'' \<noteq> Bool True"
    and fin: "generateHtmlFile templates markdownWriter sourceMd outputFile w = Done w'"
  shows "\<exists>w1 h w2 out. createDirectoryPath outputFile w = Done w1 \<and>
           Create outputFile w1 = Inr (h, w2) \<and> w' = Write h out w2"
  using assms createDirectoryPath_cases [of outputFile w]
  by (auto simp: generateHtmlFile_def Let_def
      split: sum.splits any.splits option.splits prod.splits outcome.splits)

section \<open>Properties of \<open>generateTemplates\<close>\<close>

lemma generateTemplates_no_layouts:
  assumes "ReadDir (directory @ ''layouts/'') w = Inl e"
  shows "generateTemplates eng directory w = Inr Map.empty"
  using assms by (simp add: generateTemplates_def GlobStar_def)


section \<open>Path strings, listings and walks\<close>

lemma splitFrom_append_sep:
  "splitFrom cur sep (a @ sep # b) = splitFrom cur sep a @ splitFrom [] sep b"
  by (induction a arbitrary: cur) auto

lemma splitFrom_no_sep: "sep \<notin> set s \<Longrightarrow> splitFrom cur sep s = [cur @ s]"
  by (induction s arbitrary: cur) auto

lemma splitFrom_elems:
  "sep \<notin> set cur \<Longrightarrow> \<forall>x \<in> set (splitFrom cur sep s). sep \<notin> set x"
proof (induction s arbitrary: cur)
  case Nil
  then show ?case by simp
next
  case (Cons c cs)
  show ?case
  proof (cases "c = sep")
    case True
    with Cons.prems Cons.IH [of "[]"] show ?thesis by simp
  next
    case False
    with Cons.prems Cons.IH [of "cur @ [c]"] show ?thesis by simp
  qed
qed

lemma resolve_append_slash: "resolve (a @ CHR ''/'' # b) = resolve a @ resolve b"
  by (simp add: resolve_def Split_def splitFrom_append_sep)

lemma resolve_validName: "validName n \<Longrightarrow> resolve n = [n]"
  by (simp add: resolve_def Split_def splitFrom_no_sep validName_def)

lemma resolve_valid: "n \<in> set (resolve s) \<Longrightarrow> validName n"
  unfolding resolve_def Split_def validName_def
  using splitFrom_elems [of "CHR ''/''" "[]" s] by auto

lemma walkName_Nil [simp]: "walkName dir [] = dir"
  by (simp add: walkName_def)

lemma walkName_Cons: "walkName dir (n # ns) = walkName (dir @ ''/'' @ n) ns"
  by (simp add: walkName_def)

lemma walkName_single: "walkName dir [n] = dir @ ''/'' @ n"
  by (simp add: walkName_def)

lemma resolve_walkName:
  "\<forall>n \<in> set ns. validName n \<Longrightarrow> resolve (walkName dir ns) = resolve dir @ ns"
proof (induction ns arbitrary: dir)
  case Nil
  show ?case by simp
next
  case (Cons n ns)
  then have "resolve (walkName (dir @ ''/'' @ n) ns) = resolve (dir @ ''/'' @ n) @ ns"
    by simp
  with Cons.prems show ?case
    by (simp add: walkName_Cons resolve_append_slash resolve_validName)
qed

lemma wellFormed_key:
  assumes "wellFormed w" "entryAt w p = Some e" "p \<noteq> []"
  shows "\<forall>n \<in> set p. validName n"
proof -
  from assms(2,3) have "map_of (fs w) p = Some e"
    by (simp add: entryAt_def)
  then have "(p, e) \<in> set (fs w)"
    by (rule map_of_SomeD)
  then have "p \<in> set (map fst (fs w))"
    by force
  with assms(1) show ?thesis
    by (auto simp: wellFormed_def)
qed

lemma children_iff:
  assumes "wellFormed w"
  shows "(name, e) \<in> set (children w d) \<longleftrightarrow> entryAt w (d @ [name]) = Some e"
proof
  assume "(name, e) \<in> set (children w d)"
  then obtain p where p: "(p, e) \<in> set (fs w)" "p \<noteq> []" "butlast p = d" "last p = name"
    by (auto simp: children_def)
  then have "p = d @ [name]"
    by (metis append_butlast_last_id)
  moreover from assms p(1) have "map_of (fs w) p = Some e"
    by (simp add: wellFormed_def)
  ultimately show "entryAt w (d @ [name]) = Some e"
    by (simp add: entryAt_def)
next
  assume "entryAt w (d @ [name]) = Some e"
  then have "map_of (fs w) (d @ [name]) = Some e"
    by (simp add: entryAt_def)
  then have "(d @ [name], e) \<in> set (fs w)"
    by (rule map_of_SomeD)
  then show "(name, e) \<in> set (children w d)"
    by (force simp: children_def)
qed

lemma children_distinct:
  assumes "wellFormed w"
  shows "distinct (map fst (children w d))"
proof -
  let ?sel = "filter (\<lambda>(p, e). p \<noteq> [] \<and> butlast p = d) (fs w)"
  have d: "distinct (map fst ?sel)"
    using assms by (simp add: wellFormed_def distinct_map_filter)
  have "inj_on last (set (map fst ?sel))"
  proof (rule inj_onI)
    fix p q
    assume "p \<in> set (map fst ?sel)" "q \<in> set (map fst ?sel)" "last p = last q"
    then have "p \<noteq> []" "q \<noteq> []" "butlast p = butlast q" "last p = last q"
      by auto
    then show "p = q"
      by (metis append_butlast_last_id)
  qed
  with d have "distinct (map last (map fst ?sel))"
    by (simp only: distinct_map) 
  moreover have "map fst (children w d) = map last (map fst ?sel)"
    by (simp add: children_def case_prod_beta comp_def)
  ultimately show ?thesis
    by simp
qed

lemma distinct_map_sort_key: "distinct (map f (sort_key f xs)) = distinct (map f xs)"
  by (induction xs) (auto simp: distinct_insort_key)

text \<open>What a listing holds.\<close>

lemma ReadDir_Inr:
  assumes "wellFormed w" "ReadDir dir w = Inr items"
  shows "entryAt w (resolve dir) = Some (Dir True)"
    and "distinct (map fst items)"
    and "(name, b) \<in> set items \<longleftrightarrow> (\<exists>e. entryAt w (resolve dir @ [name]) = Some e \<and> b = isDir e)"
proof -
  from assms(2) show r: "entryAt w (resolve dir) = Some (Dir True)"
    by (auto simp: ReadDir_def split: option.splits entry.splits bool.splits)
  with assms(2) have items: "items = sort_key fst (map (\<lambda>(n, e). (n, isDir e)) (children w (resolve dir)))"
    by (simp add: ReadDir_def)
  have "map fst (map (\<lambda>(n, e). (n, isDir e)) (children w (resolve dir)))
      = map fst (children w (resolve dir))"
    by (simp add: case_prod_beta comp_def)
  then have "distinct (map fst (map (\<lambda>(n, e). (n, isDir e)) (children w (resolve dir))))"
    using children_distinct [OF assms(1), of "resolve dir"] by (simp only:)
  then show "distinct (map fst items)"
    unfolding items by (simp only: distinct_map_sort_key)
  show "(name, b) \<in> set items \<longleftrightarrow> (\<exists>e. entryAt w (resolve dir @ [name]) = Some e \<and> b = isDir e)"
    unfolding items using children_iff [OF assms(1), of name _ "resolve dir"] by auto
qed

lemma ReadDir_Inl:
  assumes "ReadDir dir w = Inl e"
  shows "entryAt w (resolve dir) \<noteq> Some (Dir True)"
  using assms by (auto simp: ReadDir_def split: option.splits entry.splits bool.splits)

text \<open>The extension functions on a path that ends in a file name.\<close>

lemma walkName_snoc: "walkName dir (ms @ [n]) = walkName dir ms @ ''/'' @ n"
  by (simp add: walkName_def)

lemma finalSegment_after_slash:
  "CHR ''/'' \<notin> set m \<Longrightarrow> finalSegment (a @ CHR ''/'' # m) = m"
  by (simp add: finalSegment_def takeWhile_append takeWhile_eq_all_conv[THEN iffD2] takeWhile_tail)

lemma DirOf_after_slash:
  "CHR ''/'' \<notin> set m \<Longrightarrow> DirOf (a @ CHR ''/'' # m) = a @ ''/''"
  by (simp add: DirOf_def dropWhile_append dropWhile_eq_Nil_conv[THEN iffD2])

lemma resolve_trailing_slash: "resolve (a @ ''/'') = resolve a"
  using resolve_append_slash [of a "[]"] by (simp add: resolve_def Split_def)

lemma resolve_public: "resolve (''public/'' @ x) = ''public'' # resolve x"
proof -
  have "''public/'' @ x = ''public'' @ CHR ''/'' # x" by simp
  then have "resolve (''public/'' @ x) = resolve ''public'' @ resolve x"
    by (simp only: resolve_append_slash)
  moreover have "resolve ''public'' = [''public'']"
    by code_simp
  ultimately show ?thesis by simp
qed

lemma TrimSpace_walked:
  assumes "leadingSpace (a @ CHR ''/'' # n) = 0"
  shows "TrimSpace (a @ CHR ''/'' # n) = a @ CHR ''/'' # TrimRightSpace n"
  using assms by (simp add: TrimSpace_def TrimLeftSpace_noop TrimRightSpace_append_slash)

lemma removeExtension_walked:
  assumes lead: "leadingSpace (a @ CHR ''/'' # n) = 0" and n: "CHR ''/'' \<notin> set n"
  shows "\<exists>n2. removeExtension (a @ CHR ''/'' # n) = a @ CHR ''/'' # n2 \<and> prefix n2 n"
proof -
  let ?s = "a @ CHR ''/'' # n"
  let ?n' = "TrimRightSpace n"
  have t: "TrimSpace ?s = a @ CHR ''/'' # ?n'"
    using lead by (rule TrimSpace_walked)
  have pn: "prefix ?n' n"
    by (rule prefix_TrimRightSpace)
  then have "set ?n' \<subseteq> set n"
    by (rule set_mono_prefix)
  with n have "CHR ''/'' \<notin> set ?n'"
    by blast
  then have "finalSegment (TrimSpace ?s) = ?n'"
    unfolding t by (rule finalSegment_after_slash)
  with suffix_getExtension [of ?s] have "suffix (getExtension ?s) ?n'"
    by simp
  then obtain n2 where n2: "?n' = n2 @ getExtension ?s"
    by (auto simp: suffix_def)
  then have "removeExtension ?s = a @ CHR ''/'' # n2"
    using removeExtension_append [of ?s] unfolding t by simp
  moreover from n2 pn have "prefix n2 n"
    by (metis prefix_order.trans prefixI)
  ultimately show ?thesis by blast
qed

section \<open>A walk with the recording callback\<close>

lemma depth_list:
  "(p, e) \<in> set xs \<Longrightarrow> length p \<le> foldr (\<lambda>(p, e) m. max (length p) m) xs 0"
  by (induction xs) (auto simp: le_max_iff_disj)

lemma depth_entry:
  assumes "entryAt w p = Some e" "p \<noteq> []"
  shows "length p \<le> depth w"
proof -
  from assms have "(p, e) \<in> set (fs w)"
    by (auto simp: entryAt_def dest: map_of_SomeD)
  then show ?thesis
    unfolding depth_def by (rule depth_list)
qed

lemma entryAt_visited [simp]: "entryAt (w\<lparr>visited := v\<rparr>) p = entryAt w p"
  by (simp add: entryAt_def)

lemma children_visited [simp]: "children (w\<lparr>visited := v\<rparr>) d = children w d"
  by (simp add: children_def)

lemma ReadDir_visited [simp]: "ReadDir dir (w\<lparr>visited := v\<rparr>) = ReadDir dir w"
  by (simp add: ReadDir_def split: option.splits entry.splits bool.splits)

lemma wellFormed_visited [simp]: "wellFormed (w\<lparr>visited := v\<rparr>) = wellFormed w"
  by (simp add: wellFormed_def)

lemma depth_visited [simp]: "depth (w\<lparr>visited := v\<rparr>) = depth w"
  by (simp add: depth_def)

lemma filesReached_visited [simp]: "filesReached (w\<lparr>visited := v\<rparr>) dir = filesReached w dir"
  by (simp add: filesReached_def reaches_def)

lemma reaches_Nil [simp]: "reaches w d []"
  by (simp add: reaches_def)

lemma reaches_Cons:
  "reaches w d (n # ns) \<longleftrightarrow> entryAt w d = Some (Dir True) \<and> reaches w (d @ [n]) ns"
proof
  assume r: "reaches w d (n # ns)"
  then have "entryAt w (d @ take 0 (n # ns)) = Some (Dir True)"
    unfolding reaches_def by (metis length_greater_0_conv list.distinct(1))
  moreover have "reaches w (d @ [n]) ns"
    unfolding reaches_def
  proof (intro allI impI)
    fix k assume "k < length ns"
    then have "Suc k < length (n # ns)" by simp
    with r have "entryAt w (d @ take (Suc k) (n # ns)) = Some (Dir True)"
      unfolding reaches_def by blast
    then show "entryAt w ((d @ [n]) @ take k ns) = Some (Dir True)" by simp
  qed
  ultimately show "entryAt w d = Some (Dir True) \<and> reaches w (d @ [n]) ns" by simp
next
  assume a: "entryAt w d = Some (Dir True) \<and> reaches w (d @ [n]) ns"
  show "reaches w d (n # ns)"
    unfolding reaches_def
  proof (intro allI impI)
    fix k assume k: "k < length (n # ns)"
    show "entryAt w (d @ take k (n # ns)) = Some (Dir True)"
    proof (cases k)
      case 0
      with a show ?thesis by simp
    next
      case (Suc j)
      with k have "j < length ns" by simp
      with a have "entryAt w ((d @ [n]) @ take j ns) = Some (Dir True)"
        unfolding reaches_def by blast
      with Suc show ?thesis by simp
    qed
  qed
qed

lemma isFile_iff: "isFile x \<longleftrightarrow> (\<exists>c. x = Some (File c))"
  by (cases x rule: isFile.cases) auto

text \<open>The files reached from a directory, by its listing.\<close>

lemma filesReached_unreadable:
  assumes "entryAt w (resolve dir) \<noteq> Some (Dir True)"
  shows "filesReached w dir = {}"
proof -
  have "\<not> reaches w (resolve dir) ns" if "ns \<noteq> []" for ns
    using that assms by (cases ns) (auto simp: reaches_Cons)
  then show ?thesis
    by (auto simp: filesReached_def)
qed

lemma filesReached_step:
  assumes wf: "wellFormed w" and rd: "ReadDir dir w = Inr items"
  shows "filesReached w dir =
     (\<Union>(name, b) \<in> set items.
        if b then filesReached w (dir @ ''/'' @ name) else {dir @ ''/'' @ name})"
    (is "?L = ?R")
proof (intro set_eqI iffI)
  fix s assume "s \<in> ?L"
  then obtain ns where ns: "s = walkName dir ns" "ns \<noteq> []" "reaches w (resolve dir) ns"
    "isFile (entryAt w (resolve dir @ ns))"
    by (auto simp: filesReached_def)
  then obtain n rest where nr: "ns = n # rest"
    by (cases ns) auto
  from ns(4) obtain c where c: "entryAt w (resolve dir @ ns) = Some (File c)"
    by (auto simp: isFile_iff)
  with wf nr have vn: "validName n"
    using wellFormed_key [of w "resolve dir @ ns" "File c"] by simp
  then have res: "resolve (dir @ ''/'' @ n) = resolve dir @ [n]"
    by (simp add: resolve_append_slash resolve_validName)
  show "s \<in> ?R"
  proof (cases rest)
    case Nil
    with c nr have "(n, False) \<in> set items"
      using ReadDir_Inr(3) [OF wf rd, of n False] by simp
    moreover from Nil nr ns(1) have "s = dir @ ''/'' @ n"
      by (simp add: walkName_single)
    ultimately show ?thesis by force
  next
    case (Cons m ms)
    with ns(3) nr have r: "reaches w (resolve dir @ [n]) rest"
      and e: "entryAt w (resolve dir @ [n]) = Some (Dir True)"
      by (auto simp: reaches_Cons)
    from e have "(n, True) \<in> set items"
      using ReadDir_Inr(3) [OF wf rd, of n True] by simp
    moreover have "s \<in> filesReached w (dir @ ''/'' @ n)"
      unfolding filesReached_def res
      using ns(1,4) nr r Cons by (auto simp: walkName_Cons intro!: exI [of _ rest])
    ultimately show ?thesis by force
  qed
next
  fix s assume "s \<in> ?R"
  then obtain name b where it: "(name, b) \<in> set items"
    and s: "s \<in> (if b then filesReached w (dir @ ''/'' @ name) else {dir @ ''/'' @ name})"
    by auto
  from it obtain e where e: "entryAt w (resolve dir @ [name]) = Some e" "b = isDir e"
    using ReadDir_Inr(3) [OF wf rd, of name b] by auto
  have d: "entryAt w (resolve dir) = Some (Dir True)"
    by (rule ReadDir_Inr(1) [OF wf rd])
  from wf e(1) have vn: "validName name"
    using wellFormed_key [of w "resolve dir @ [name]" e] by simp
  then have res: "resolve (dir @ ''/'' @ name) = resolve dir @ [name]"
    by (simp add: resolve_append_slash resolve_validName)
  show "s \<in> ?L"
  proof (cases b)
    case False
    with e obtain c where "e = File c" by (cases e) auto
    with e(1) d False s show ?thesis
      unfolding filesReached_def
      by (auto simp: reaches_Cons walkName_single isFile_iff intro!: exI [of _ "[name]"])
  next
    case True
    with s obtain ms where ms: "s = walkName (dir @ ''/'' @ name) ms" "ms \<noteq> []"
      "reaches w (resolve dir @ [name]) ms" "isFile (entryAt w (resolve dir @ [name] @ ms))"
      unfolding filesReached_def res by auto
    with d show ?thesis
      unfolding filesReached_def
      by (auto simp: reaches_Cons walkName_Cons intro!: exI [of _ "name # ms"])
  qed
qed


lemma filesReached_resolve:
  assumes wf: "wellFormed w" and s: "s \<in> filesReached w dir"
  shows "\<exists>ns. ns \<noteq> [] \<and> resolve s = resolve dir @ ns"
proof -
  from s obtain ns where ns: "s = walkName dir ns" "ns \<noteq> []"
    "isFile (entryAt w (resolve dir @ ns))"
    by (auto simp: filesReached_def)
  then obtain c where "entryAt w (resolve dir @ ns) = Some (File c)"
    by (auto simp: isFile_iff)
  with wf ns(2) have "\<forall>n \<in> set ns. validName n"
    using wellFormed_key [of w "resolve dir @ ns" "File c"] by simp
  then have "resolve (walkName dir ns) = resolve dir @ ns"
    by (rule resolve_walkName)
  with ns show ?thesis by blast
qed

lemma itemFiles_resolve:
  assumes wf: "wellFormed w" and vn: "validName (fst item)" and s: "s \<in> itemFiles w dir item"
  shows "\<exists>ms. resolve s = resolve dir @ fst item # ms"
proof -
  have res: "resolve (dir @ ''/'' @ fst item) = resolve dir @ [fst item]"
    using vn by (simp add: resolve_append_slash resolve_validName)
  show ?thesis
  proof (cases "snd item")
    case True
    with s have "s \<in> filesReached w (dir @ ''/'' @ fst item)"
      by (simp add: itemFiles_def)
    from filesReached_resolve [OF wf this] res show ?thesis by auto
  next
    case False
    with s res show ?thesis by (simp add: itemFiles_def)
  qed
qed

lemma itemFiles_disjoint:
  assumes wf: "wellFormed w" and "validName (fst a)" "validName (fst b)" "fst a \<noteq> fst b"
  shows "itemFiles w dir a \<inter> itemFiles w dir b = {}"
proof (rule ccontr)
  assume "itemFiles w dir a \<inter> itemFiles w dir b \<noteq> {}"
  then obtain s where "s \<in> itemFiles w dir a" "s \<in> itemFiles w dir b" by blast
  with assms obtain ms ms' where "resolve s = resolve dir @ fst a # ms"
    "resolve s = resolve dir @ fst b # ms'"
    using itemFiles_resolve by metis
  with assms(4) show False by simp
qed

lemma walkItems_recordVisit:
  fixes w :: traced
  assumes wf: "wellFormed w"
    and IH: "\<And>name v. (name, True) \<in> set items \<Longrightarrow>
        \<exists>vs. walk m (dir @ ''/'' @ name) recordVisit (w\<lparr>visited := v\<rparr>)
               = Some (Done (w\<lparr>visited := v @ vs\<rparr>)) \<and>
             distinct vs \<and> set vs = filesReached w (dir @ ''/'' @ name)"
    and names: "\<forall>item \<in> set items. validName (fst item)"
    and dist: "distinct (map fst items)"
  shows "\<exists>vs. walkItems m dir recordVisit items (w\<lparr>visited := v\<rparr>)
           = Some (Done (w\<lparr>visited := v @ vs\<rparr>)) \<and>
         distinct vs \<and> set vs = (\<Union>item \<in> set items. itemFiles w dir item)"
  using IH names dist
proof (induction items arbitrary: v)
  case Nil
  show ?case by simp
next
  case (Cons item items)
  obtain name b where item: "item = (name, b)" by (cases item)
  have first: "\<exists>vs1. (if \<not> b then (case recordVisit (dir @ ''/'' @ name) (w\<lparr>visited := v\<rparr>) of
                              Done w' \<Rightarrow> Some (Done w') | r \<Rightarrow> Some r)
                        else walk m (dir @ ''/'' @ name) recordVisit (w\<lparr>visited := v\<rparr>))
              = Some (Done (w\<lparr>visited := v @ vs1\<rparr>)) \<and>
            distinct vs1 \<and> set vs1 = itemFiles w dir item"
  proof (cases b)
    case True
    with Cons.prems(1) [of name v] item show ?thesis
      by (simp add: itemFiles_def)
  next
    case False
    then show ?thesis
      by (auto simp: recordVisit_def itemFiles_def item intro!: exI [of _ "[dir @ ''/'' @ name]"])
  qed
  then obtain vs1 where vs1: "(if \<not> b then (case recordVisit (dir @ ''/'' @ name) (w\<lparr>visited := v\<rparr>) of
                              Done w' \<Rightarrow> Some (Done w') | r \<Rightarrow> Some r)
                        else walk m (dir @ ''/'' @ name) recordVisit (w\<lparr>visited := v\<rparr>))
              = Some (Done (w\<lparr>visited := v @ vs1\<rparr>))"
    "distinct vs1" "set vs1 = itemFiles w dir item"
    by blast
  have "\<exists>vs. walkItems m dir recordVisit items (w\<lparr>visited := v @ vs1\<rparr>)
           = Some (Done (w\<lparr>visited := (v @ vs1) @ vs\<rparr>)) \<and>
         distinct vs \<and> set vs = (\<Union>item \<in> set items. itemFiles w dir item)"
    using Cons.prems by (intro Cons.IH) auto
  then obtain vs2 where vs2: "walkItems m dir recordVisit items (w\<lparr>visited := v @ vs1\<rparr>)
           = Some (Done (w\<lparr>visited := (v @ vs1) @ vs2\<rparr>))"
    "distinct vs2" "set vs2 = (\<Union>item \<in> set items. itemFiles w dir item)"
    by blast
  have run: "walkItems m dir recordVisit (item # items) (w\<lparr>visited := v\<rparr>)
      = Some (Done (w\<lparr>visited := v @ (vs1 @ vs2)\<rparr>))"
  proof (cases b)
    case True
    with vs1(1) vs2(1) item show ?thesis by simp
  next
    case False
    with vs1(1) vs2(1) item show ?thesis
      by (simp add: recordVisit_def)
  qed
  have "itemFiles w dir item \<inter> itemFiles w dir other = {}" if "other \<in> set items" for other
  proof -
    from that Cons.prems(3) have "fst item \<noteq> fst other" by force
    with that Cons.prems(2) show ?thesis
      by (intro itemFiles_disjoint [OF wf]) auto
  qed
  then have "set vs1 \<inter> set vs2 = {}"
    unfolding vs1(3) vs2(3) by blast
  with vs1(2,3) vs2(2,3) run show ?case
    by (intro exI [of _ "vs1 @ vs2"]) auto
qed

lemma walk_recordVisit:
  fixes w :: traced
  assumes wf: "wellFormed w"
  shows "0 < n \<Longrightarrow> depth w < n + length (resolve dir) \<Longrightarrow>
     \<exists>vs. walk n dir recordVisit (w\<lparr>visited := v\<rparr>) = Some (Done (w\<lparr>visited := v @ vs\<rparr>)) \<and>
          distinct vs \<and> set vs = filesReached w dir"
proof (induction n arbitrary: dir v)
  case 0
  then show ?case by simp
next
  case (Suc m)
  show ?case
  proof (cases "ReadDir dir w")
    case (Inl e)
    then have "filesReached w dir = {}"
      by (intro filesReached_unreadable ReadDir_Inl)
    with Inl show ?thesis by simp
  next
    case (Inr items)
    have names: "\<forall>item \<in> set items. validName (fst item)"
    proof
      fix item assume "item \<in> set items"
      then obtain e where "entryAt w (resolve dir @ [fst item]) = Some e"
        using ReadDir_Inr(3) [OF wf Inr, of "fst item" "snd item"] by auto
      with wf show "validName (fst item)"
        using wellFormed_key [of w "resolve dir @ [fst item]" e] by simp
    qed
    have sub: "\<exists>vs. walk m (dir @ ''/'' @ name) recordVisit (w\<lparr>visited := v'\<rparr>)
               = Some (Done (w\<lparr>visited := v' @ vs\<rparr>)) \<and>
             distinct vs \<and> set vs = filesReached w (dir @ ''/'' @ name)"
      if "(name, True) \<in> set items" for name v'
    proof -
      from that obtain e where e: "entryAt w (resolve dir @ [name]) = Some e"
        using ReadDir_Inr(3) [OF wf Inr, of name True] by auto
      from that names have "validName name" by force
      then have res: "resolve (dir @ ''/'' @ name) = resolve dir @ [name]"
        by (simp add: resolve_append_slash resolve_validName)
      from e have "length (resolve dir @ [name]) \<le> depth w"
        by (rule depth_entry) simp
      with Suc.prems(2) have "0 < m" "depth w < m + length (resolve (dir @ ''/'' @ name))"
        unfolding res by simp_all
      then show ?thesis by (rule Suc.IH)
    qed
    have "\<exists>vs. walkItems m dir recordVisit items (w\<lparr>visited := v\<rparr>)
           = Some (Done (w\<lparr>visited := v @ vs\<rparr>)) \<and>
         distinct vs \<and> set vs = (\<Union>item \<in> set items. itemFiles w dir item)"
      using wf sub names ReadDir_Inr(2) [OF wf Inr] by (rule walkItems_recordVisit)
    moreover have "filesReached w dir = (\<Union>item \<in> set items. itemFiles w dir item)"
      unfolding filesReached_step [OF wf Inr] itemFiles_def by (simp add: case_prod_beta)
    ultimately show ?thesis
      using Inr by simp
  qed
qed

lemma filesReached_isFile:
  assumes wf: "wellFormed w" and s: "s \<in> filesReached w dir"
  shows "isFile (entryAt w (resolve s))"
proof -
  from s obtain ns where ns: "s = walkName dir ns" "ns \<noteq> []"
    "isFile (entryAt w (resolve dir @ ns))"
    by (auto simp: filesReached_def)
  then obtain c where "entryAt w (resolve dir @ ns) = Some (File c)"
    by (auto simp: isFile_iff)
  with wf ns(2) have "\<forall>n \<in> set ns. validName n"
    using wellFormed_key [of w "resolve dir @ ns" "File c"] by simp
  then have "resolve (walkName dir ns) = resolve dir @ ns"
    by (rule resolve_walkName)
  with ns show ?thesis by simp
qed

lemma reaches_take:
  assumes "reaches w d ns" "k < length ns"
  shows "entryAt w (d @ take k ns) = Some (Dir True)"
  using assms by (simp add: reaches_def)

lemma filesReached_below_unreadable:
  assumes wf: "wellFormed w"
    and locked: "entryAt w (resolve dir @ ns) = Some (Dir False)"
    and ms: "ms \<noteq> []" "\<forall>m \<in> set ms. validName m"
  shows "walkName dir (ns @ ms) \<notin> filesReached w dir"
proof
  assume "walkName dir (ns @ ms) \<in> filesReached w dir"
  then obtain ns' where ns': "walkName dir (ns @ ms) = walkName dir ns'" "ns' \<noteq> []"
    "reaches w (resolve dir) ns'" "isFile (entryAt w (resolve dir @ ns'))"
    by (auto simp: filesReached_def)
  then obtain c where "entryAt w (resolve dir @ ns') = Some (File c)"
    by (auto simp: isFile_iff)
  with wf ns'(2) have v': "\<forall>n \<in> set ns'. validName n"
    using wellFormed_key [of w "resolve dir @ ns'" "File c"] by simp
  have v: "\<forall>n \<in> set (ns @ ms). validName n"
  proof (cases "ns = []")
    case True
    with ms(2) show ?thesis by simp
  next
    case False
    with wf locked have "\<forall>n \<in> set ns. validName n"
      using wellFormed_key [of w "resolve dir @ ns" "Dir False"] by simp
    with ms(2) show ?thesis by auto
  qed
  from ns'(1) have "resolve (walkName dir (ns @ ms)) = resolve (walkName dir ns')"
    by simp
  then have eq: "ns' = ns @ ms"
    by (simp add: resolve_walkName [OF v] resolve_walkName [OF v'])
  with ms(1) have "length ns < length ns'" by simp
  with ns'(3) have "entryAt w (resolve dir @ take (length ns) ns') = Some (Dir True)"
    by (rule reaches_take)
  with eq locked show False by simp
qed

lemma depth_le:
  assumes "\<And>p e. p \<noteq> [] \<Longrightarrow> entryAt v p = Some e \<Longrightarrow> length p \<le> d"
  shows "depth v \<le> d"
proof -
  have "foldr (\<lambda>(p, e) m. max (length p) m) xs 0 \<le> d"
    if "\<forall>x \<in> set xs. length (fst x) \<le> d" for xs :: "(path \<times> entry) list"
    using that by (induction xs) (auto split: prod.splits)
  moreover have "length p \<le> d" if "(p, e) \<in> set (fs v)" for p e
  proof (cases "p = []")
    case True
    then show ?thesis by simp
  next
    case False
    from that obtain e' where "map_of (fs v) p = Some e'"
      using weak_map_of_SomeI by fastforce
    with False show ?thesis
      using assms [of p e'] by (simp add: entryAt_def)
  qed
  ultimately show ?thesis
    unfolding depth_def by force
qed

lemma length_prefixes:
  "q \<in> set (prefixes p) \<Longrightarrow> length q \<le> length p"
  by (auto simp: prefixes_def)

section \<open>What a walk preserves and what it gets done\<close>

lemma walkItems_Cons:
  "walkItems n dir f (item # items) w =
     (case runItem n dir f item w of
        Some (Done w') \<Rightarrow> walkItems n dir f items w'
      | r \<Rightarrow> r)"
  by (simp add: runItem_def split: outcome.splits option.splits)

declare walkItems.simps(2) [simp del]

lemma walk_Suc:
  "walk (Suc n) dir f w =
     walkItems n dir f (case ReadDir dir w of Inl err \<Rightarrow> [] | Inr items \<Rightarrow> items) w"
  by simp

lemma ReadDir_ok:
  "entryAt w (resolve dir) = Some (Dir True) \<Longrightarrow> \<exists>items. ReadDir dir w = Inr items"
  by (simp add: ReadDir_def)

text \<open>A walk ends otherwise than by returning only when a callback does.\<close>

lemma walkItems_stops:
  assumes sub: "\<And>item v r. item \<in> set items \<Longrightarrow> runItem m dir f item v = Some r \<Longrightarrow>
      (\<exists>v'. r = Done v') \<or> (\<exists>s u. f s u = r)"
    and run: "walkItems m dir f items w = Some r"
  shows "(\<exists>w'. r = Done w') \<or> (\<exists>s u. f s u = r)"
  using assms
proof (induction items arbitrary: w)
  case Nil
  then show ?case by auto
next
  case (Cons item items)
  show ?case
  proof (cases "runItem m dir f item w")
    case None
    with Cons.prems(2) show ?thesis by (simp add: walkItems_Cons)
  next
    case (Some r1)
    show ?thesis
    proof (cases "\<exists>w1. r1 = Done w1")
      case True
      then obtain w1 where "r1 = Done w1" by blast
      with Some Cons.prems(2) have rest: "walkItems m dir f items w1 = Some r"
        by (simp add: walkItems_Cons)
      show ?thesis
      proof (rule Cons.IH [OF _ rest])
        fix item' v r'
        assume "item' \<in> set items" "runItem m dir f item' v = Some r'"
        then show "(\<exists>v'. r' = Done v') \<or> (\<exists>s u. f s u = r')"
          using Cons.prems(1) [of item' v r'] by simp
      qed
    next
      case False
      with Some Cons.prems(2) have "r = r1"
        by (cases r1) (auto simp: walkItems_Cons)
      with Some False Cons.prems(1) [of item w r1] show ?thesis by auto
    qed
  qed
qed

lemma walk_stops:
  "walk n dir f w = Some r \<Longrightarrow> (\<exists>w'. r = Done w') \<or> (\<exists>s u. f s u = r)"
proof (induction n arbitrary: dir w r)
  case 0
  then show ?case by simp
next
  case (Suc m)
  have "(\<exists>v'. r' = Done v') \<or> (\<exists>s u. f s u = r')"
    if "runItem m dir f item v = Some r'" for item v r'
    using that Suc.IH by (auto simp: runItem_def split: if_splits)
  with Suc.prems show ?case
    unfolding walk_Suc by (rule walkItems_stops [rotated])
qed

text \<open>What every callback and every walk below preserves, the loop preserves.\<close>

lemma walkItems_invariant:
  assumes "\<And>item v v'. item \<in> set items \<Longrightarrow> I v \<Longrightarrow> runItem m dir f item v = Some (Done v') \<Longrightarrow> I v'"
    and "I w" and "walkItems m dir f items w = Some (Done w')"
  shows "I w'"
  using assms
proof (induction items arbitrary: w)
  case Nil
  then show ?case by simp
next
  case (Cons item items)
  from Cons.prems(3) obtain w1 where w1: "runItem m dir f item w = Some (Done w1)"
    "walkItems m dir f items w1 = Some (Done w')"
    by (auto simp: walkItems_Cons split: option.splits outcome.splits)
  from Cons.prems(1) [OF _ Cons.prems(2) w1(1)] have w1I: "I w1" by simp
  show ?case
  proof (rule Cons.IH [OF _ w1I w1(2)])
    fix item' v v'
    assume "item' \<in> set items" "I v" "runItem m dir f item' v = Some (Done v')"
    then show "I v'"
      using Cons.prems(1) [of item' v v'] by simp
  qed
qed

lemma ReadDir_names:
  assumes "wellFormed w" "ReadDir dir w = Inr items" "item \<in> set items"
  shows "validName (fst item)"
proof -
  from assms obtain e where "entryAt w (resolve dir @ [fst item]) = Some e"
    using ReadDir_Inr(3) [OF assms(1,2), of "fst item" "snd item"] by auto
  with assms(1) show ?thesis
    using wellFormed_key [of w "resolve dir @ [fst item]" e] by simp
qed

lemma walk_invariant:
  assumes wf: "\<And>v. I v \<Longrightarrow> wellFormed v"
  shows "(\<And>ns v v'. ns \<noteq> [] \<Longrightarrow> \<forall>x \<in> set ns. validName x \<Longrightarrow> I v \<Longrightarrow>
            f (walkName dir ns) v = Done v' \<Longrightarrow> I v') \<Longrightarrow>
         I w \<Longrightarrow> walk n dir f w = Some (Done w') \<Longrightarrow> I w'"
proof (induction n arbitrary: dir w w')
  case 0
  then show ?case by simp
next
  case (Suc m)
  show ?case
  proof (cases "ReadDir dir w")
    case (Inl e)
    with Suc.prems(2,3) show ?thesis by simp
  next
    case (Inr items)
    have item: "I v'" if "item \<in> set items" "I v" "runItem m dir f item v = Some (Done v')"
      for item v v'
    proof -
      have vn: "validName (fst item)"
        using wf [OF Suc.prems(2)] Inr that(1) by (rule ReadDir_names)
      show ?thesis
      proof (cases "snd item")
        case False
        with that(3) have "f (walkName dir [fst item]) v = Done v'"
          by (simp add: runItem_def walkName_single)
        with vn that(2) show ?thesis
          by (intro Suc.prems(1) [of "[fst item]" v v']) auto
      next
        case True
        with that(3) have run: "walk m (dir @ ''/'' @ fst item) f v = Some (Done v')"
          by (simp add: runItem_def)
        show ?thesis
        proof (rule Suc.IH [OF _ that(2) run])
          fix ns u u'
          assume "ns \<noteq> []" "\<forall>x \<in> set ns. validName x" "I u"
            "f (walkName (dir @ ''/'' @ fst item) ns) u = Done u'"
          with vn show "I u'"
            by (intro Suc.prems(1) [of "fst item # ns" u u']) (auto simp: walkName_Cons)
        qed
      qed
    qed
    from Suc.prems(3) Inr have "walkItems m dir f items w = Some (Done w')"
      by simp
    with item Suc.prems(2) show ?thesis
      by (rule walkItems_invariant)
  qed
qed

text \<open>
  Following one file through the loop: while its item is ahead, \<open>P\<close> holds; the item's
  iteration turns \<open>P\<close> into \<open>Q\<close>; the other iterations keep both.
\<close>

lemma walkItems_handles:
  assumes keepP: "\<And>item v v'. item \<in> set items \<Longrightarrow> fst item \<noteq> name0 \<Longrightarrow> P v \<Longrightarrow>
        runItem m dir f item v = Some (Done v') \<Longrightarrow> P v'"
    and keepQ: "\<And>item v v'. item \<in> set items \<Longrightarrow> fst item \<noteq> name0 \<Longrightarrow> Q v \<Longrightarrow>
        runItem m dir f item v = Some (Done v') \<Longrightarrow> Q v'"
    and handle: "\<And>item v v'. item \<in> set items \<Longrightarrow> fst item = name0 \<Longrightarrow> P v \<Longrightarrow>
        runItem m dir f item v = Some (Done v') \<Longrightarrow> Q v'"
    and dist: "distinct (map fst items)"
    and state: "(P w \<and> name0 \<in> fst ` set items) \<or> (Q w \<and> name0 \<notin> fst ` set items)"
    and run: "walkItems m dir f items w = Some (Done w')"
  shows "Q w'"
  using assms
proof (induction items arbitrary: w)
  case Nil
  then show ?case by simp
next
  case (Cons item items)
  from Cons.prems(6) obtain w1 where w1: "runItem m dir f item w = Some (Done w1)"
    "walkItems m dir f items w1 = Some (Done w')"
    by (auto simp: walkItems_Cons split: option.splits outcome.splits)
  have st: "(P w1 \<and> name0 \<in> fst ` set items) \<or> (Q w1 \<and> name0 \<notin> fst ` set items)"
  proof (cases "fst item = name0")
    case True
    with Cons.prems(5) have "P w" by auto
    with True w1(1) have "Q w1"
      using Cons.prems(3) [of item w w1] by simp
    moreover from True Cons.prems(4) have "name0 \<notin> fst ` set items" by auto
    ultimately show ?thesis by simp
  next
    case False
    from Cons.prems(5) show ?thesis
    proof
      assume "P w \<and> name0 \<in> fst ` set (item # items)"
      with False w1(1) have "P w1" "name0 \<in> fst ` set items"
        using Cons.prems(1) [of item w w1] by auto
      then show ?thesis by simp
    next
      assume "Q w \<and> name0 \<notin> fst ` set (item # items)"
      with False w1(1) have "Q w1" "name0 \<notin> fst ` set items"
        using Cons.prems(2) [of item w w1] by auto
      then show ?thesis by simp
    qed
  qed
  show ?case
  proof (rule Cons.IH [OF _ _ _ _ st w1(2)])
    fix it v v'
    assume a: "it \<in> set items" "fst it \<noteq> name0" "runItem m dir f it v = Some (Done v')"
    { assume "P v" with a show "P v'" using Cons.prems(1) [of it v v'] by simp }
    { assume "Q v" with a show "Q v'" using Cons.prems(2) [of it v v'] by simp }
  next
    fix it v v'
    assume "it \<in> set items" "fst it = name0" "P v" "runItem m dir f it v = Some (Done v')"
    then show "Q v'" using Cons.prems(3) [of it v v'] by simp
  next
    from Cons.prems(4) show "distinct (map fst items)" by simp
  qed
qed

lemma walk_handles:
  assumes wf: "\<And>v. I v \<Longrightarrow> wellFormed v"
  shows "(\<And>ms v v'. ms \<noteq> [] \<Longrightarrow> \<forall>x \<in> set ms. validName x \<Longrightarrow> I v \<Longrightarrow>
            f (walkName dir ms) v = Done v' \<Longrightarrow> I v') \<Longrightarrow>
         (\<And>v. I v \<Longrightarrow> P v \<Longrightarrow>
            reaches v (resolve dir) ns0 \<and> isFile (entryAt v (resolve dir @ ns0))) \<Longrightarrow>
         (\<And>v v'. I v \<Longrightarrow> P v \<Longrightarrow> f (walkName dir ns0) v = Done v' \<Longrightarrow> Q v') \<Longrightarrow>
         (\<And>ms v v'. ms \<noteq> [] \<Longrightarrow> \<forall>x \<in> set ms. validName x \<Longrightarrow> ms \<noteq> ns0 \<Longrightarrow> I v \<Longrightarrow> P v \<Longrightarrow>
            f (walkName dir ms) v = Done v' \<Longrightarrow> P v') \<Longrightarrow>
         (\<And>ms v v'. ms \<noteq> [] \<Longrightarrow> \<forall>x \<in> set ms. validName x \<Longrightarrow> ms \<noteq> ns0 \<Longrightarrow> I v \<Longrightarrow> Q v \<Longrightarrow>
            f (walkName dir ms) v = Done v' \<Longrightarrow> Q v') \<Longrightarrow>
         ns0 \<noteq> [] \<Longrightarrow> I w \<Longrightarrow> P w \<Longrightarrow> walk n dir f w = Some (Done w') \<Longrightarrow> Q w'"
proof (induction n arbitrary: dir ns0 w w')
  case 0
  from "0.prems"(9) show ?case by simp
next
  case (Suc m)
  note step = Suc.prems(1) and found = Suc.prems(2) and visit = Suc.prems(3)
    and keepP = Suc.prems(4) and keepQ = Suc.prems(5)
  note Iw = \<open>I w\<close> and Pw = \<open>P w\<close>
  obtain name0 rest0 where ns0: "ns0 = name0 # rest0"
    using \<open>ns0 \<noteq> []\<close> by (cases ns0) auto
  from found [OF Iw Pw] have rw: "reaches w (resolve dir) ns0"
    and fw: "isFile (entryAt w (resolve dir @ ns0))"
    by simp_all
  from rw have dw: "entryAt w (resolve dir) = Some (Dir True)"
    by (simp add: ns0 reaches_Cons)
  then obtain items where items: "ReadDir dir w = Inr items"
    using ReadDir_ok by blast
  with Suc.prems(9) have run: "walkItems m dir f items w = Some (Done w')"
    by simp
  have wfw: "wellFormed w"
    using Iw by (rule wf)
  have vn0: "validName name0"
  proof -
    from fw obtain c where "entryAt w (resolve dir @ ns0) = Some (File c)"
      by (auto simp: isFile_iff)
    with wfw show ?thesis
      using wellFormed_key [of w "resolve dir @ ns0" "File c"] by (simp add: ns0)
  qed
  then have res0: "resolve (dir @ ''/'' @ name0) = resolve dir @ [name0]"
    by (simp add: resolve_append_slash resolve_validName)
  have flag: "b = (rest0 \<noteq> [])" if "(name0, b) \<in> set items" for b
  proof -
    from that obtain e where e: "entryAt w (resolve dir @ [name0]) = Some e" "b = isDir e"
      using ReadDir_Inr(3) [OF wfw items, of name0 b] by auto
    show ?thesis
    proof (cases rest0)
      case Nil
      with fw e show ?thesis by (auto simp: ns0 isFile_iff)
    next
      case (Cons x xs)
      with rw have "entryAt w (resolve dir @ [name0]) = Some (Dir True)"
        by (simp add: ns0 reaches_Cons)
      with e Cons show ?thesis by auto
    qed
  qed
  have present: "name0 \<in> fst ` set items"
  proof -
    have "\<exists>e. entryAt w (resolve dir @ [name0]) = Some e"
    proof (cases rest0)
      case Nil
      with fw show ?thesis by (auto simp: ns0 isFile_iff)
    next
      case (Cons x xs)
      with rw show ?thesis by (simp add: ns0 reaches_Cons)
    qed
    then obtain e where "entryAt w (resolve dir @ [name0]) = Some e" by blast
    then have "(name0, isDir e) \<in> set items"
      using ReadDir_Inr(3) [OF wfw items, of name0 "isDir e"] by auto
    then show ?thesis by force
  qed
  have valid: "validName (fst item)" if "item \<in> set items" for item
    using wfw items that by (rule ReadDir_names)
  have stepsub: "I u'"
    if "validName name" "ms \<noteq> []" "\<forall>x \<in> set ms. validName x" "I u"
      "f (walkName (dir @ ''/'' @ name) ms) u = Done u'" for name ms u u'
    using that by (intro step [of "name # ms" u u']) (auto simp: walkName_Cons)
  have Isub: "I v'"
    if "item \<in> set items" "I v" "runItem m dir f item v = Some (Done v')" for item v v'
  proof (cases "snd item")
    case False
    with that(3) have "f (walkName dir [fst item]) v = Done v'"
      by (simp add: runItem_def walkName_single)
    with valid [OF that(1)] that(2) show ?thesis
      by (intro step [of "[fst item]" v v']) auto
  next
    case True
    with that(3) have r: "walk m (dir @ ''/'' @ fst item) f v = Some (Done v')"
      by (simp add: runItem_def)
    show ?thesis
    proof (rule walk_invariant [where I = I and f = f and n = m
          and dir = "dir @ ''/'' @ fst item" and w = v and w' = v'])
      show "wellFormed u" if "I u" for u
        using that by (rule wf)
    next
      fix ns u u'
      assume "ns \<noteq> []" "\<forall>x \<in> set ns. validName x" "I u"
        "f (walkName (dir @ ''/'' @ fst item) ns) u = Done u'"
      then show "I u'"
        by (rule stepsub [OF valid [OF that(1)]])
    next
      show "I v" by (rule that(2))
    next
      show "walk m (dir @ ''/'' @ fst item) f v = Some (Done v')" by (rule r)
    qed
  qed
  have other: "R v'"
    if keep: "\<And>ms u u'. ms \<noteq> [] \<Longrightarrow> \<forall>x \<in> set ms. validName x \<Longrightarrow> ms \<noteq> ns0 \<Longrightarrow> I u \<Longrightarrow> R u \<Longrightarrow>
        f (walkName dir ms) u = Done u' \<Longrightarrow> R u'"
      and it: "item \<in> set items" "fst item \<noteq> name0"
      and v: "I v" "R v" "runItem m dir f item v = Some (Done v')"
    for R item v v'
  proof (cases "snd item")
    case False
    with v(3) have "f (walkName dir [fst item]) v = Done v'"
      by (simp add: runItem_def walkName_single)
    with valid [OF it(1)] it(2) v(1,2) show ?thesis
      by (intro keep [of "[fst item]" v v']) (auto simp: ns0)
  next
    case True
    with v(3) have r: "walk m (dir @ ''/'' @ fst item) f v = Some (Done v')"
      by (simp add: runItem_def)
    have "I v' \<and> R v'"
    proof (rule walk_invariant [where I = "\<lambda>u. I u \<and> R u" and f = f and n = m
          and dir = "dir @ ''/'' @ fst item" and w = v and w' = v'])
      show "wellFormed u" if "I u \<and> R u" for u
        using that wf by blast
    next
      show "I v \<and> R v" using v by simp
    next
      show "walk m (dir @ ''/'' @ fst item) f v = Some (Done v')" by (rule r)
    next
      fix ms u u'
      assume a: "ms \<noteq> []" "\<forall>x \<in> set ms. validName x" "I u \<and> R u"
        "f (walkName (dir @ ''/'' @ fst item) ms) u = Done u'"
      then have "I u'"
        using stepsub [OF valid [OF it(1)], of ms u u'] by simp
      moreover from a it(2) valid [OF it(1)] have "R u'"
        by (intro keep [of "fst item # ms" u u']) (auto simp: walkName_Cons ns0)
      ultimately show "I u' \<and> R u'" by simp
    qed
    then show ?thesis by simp
  qed
  have handled: "Q v'"
    if it: "item \<in> set items" "fst item = name0"
      and v: "I v" "P v" "runItem m dir f item v = Some (Done v')"
    for item v v'
  proof -
    from it have "(name0, snd item) \<in> set items"
      by (metis prod.collapse)
    then have sn: "snd item = (rest0 \<noteq> [])"
      by (rule flag)
    show ?thesis
    proof (cases rest0)
      case Nil
      with sn v(3) it(2) have "f (walkName dir ns0) v = Done v'"
        by (simp add: runItem_def ns0 walkName_single)
      with v(1,2) show ?thesis by (rule visit)
    next
      case (Cons x xs)
      with sn v(3) it(2) have r: "walk m (dir @ ''/'' @ name0) f v = Some (Done v')"
        by (simp add: runItem_def)
      show ?thesis
      proof (rule Suc.IH [where ?ns0.0 = rest0, OF _ _ _ _ _ _ v(1,2) r])
        fix ms u u'
        assume "ms \<noteq> []" "\<forall>x \<in> set ms. validName x" "I u"
          "f (walkName (dir @ ''/'' @ name0) ms) u = Done u'"
        then show "I u'" by (rule stepsub [OF vn0])
      next
        fix u assume "I u" "P u"
        from found [OF this] show "reaches u (resolve (dir @ ''/'' @ name0)) rest0 \<and>
            isFile (entryAt u (resolve (dir @ ''/'' @ name0) @ rest0))"
          unfolding res0 by (simp add: ns0 reaches_Cons)
      next
        fix u u' assume "I u" "P u" "f (walkName (dir @ ''/'' @ name0) rest0) u = Done u'"
        then show "Q u'"
          by (intro visit [of u u']) (auto simp: ns0 walkName_Cons)
      next
        fix ms u u'
        assume "ms \<noteq> []" "\<forall>x \<in> set ms. validName x" "ms \<noteq> rest0" "I u" "P u"
          "f (walkName (dir @ ''/'' @ name0) ms) u = Done u'"
        with vn0 show "P u'"
          by (intro keepP [of "name0 # ms" u u']) (auto simp: ns0 walkName_Cons)
      next
        fix ms u u'
        assume "ms \<noteq> []" "\<forall>x \<in> set ms. validName x" "ms \<noteq> rest0" "I u" "Q u"
          "f (walkName (dir @ ''/'' @ name0) ms) u = Done u'"
        with vn0 show "Q u'"
          by (intro keepQ [of "name0 # ms" u u']) (auto simp: ns0 walkName_Cons)
      next
        from Cons show "rest0 \<noteq> []" by simp
      qed
    qed
  qed
  have "I w' \<and> Q w'"
  proof (rule walkItems_handles [where P = "\<lambda>u. I u \<and> P u" and Q = "\<lambda>u. I u \<and> Q u"
        and ?name0.0 = name0, OF _ _ _ _ _ run])
    fix item v v'
    assume a: "item \<in> set items" "fst item \<noteq> name0" "runItem m dir f item v = Some (Done v')"
    { assume h: "I v \<and> P v"
      have "I v'"
        by (rule Isub [OF a(1) conjunct1 [OF h] a(3)])
      moreover have "P v'"
        by (rule other [where R = P, OF keepP a(1) a(2) conjunct1 [OF h] conjunct2 [OF h] a(3)])
      ultimately show "I v' \<and> P v'" by simp }
    { assume h: "I v \<and> Q v"
      have "I v'"
        by (rule Isub [OF a(1) conjunct1 [OF h] a(3)])
      moreover have "Q v'"
        by (rule other [where R = Q, OF keepQ a(1) a(2) conjunct1 [OF h] conjunct2 [OF h] a(3)])
      ultimately show "I v' \<and> Q v'" by simp }
  next
    fix item v v'
    assume a: "item \<in> set items" "fst item = name0" "I v \<and> P v"
      "runItem m dir f item v = Some (Done v')"
    have "I v'"
      by (rule Isub [OF a(1) conjunct1 [OF a(3)] a(4)])
    moreover have "Q v'"
      by (rule handled [OF a(1) a(2) conjunct1 [OF a(3)] conjunct2 [OF a(3)] a(4)])
    ultimately show "I v' \<and> Q v'" by simp
  next
    show "distinct (map fst items)"
      by (rule ReadDir_Inr(2) [OF wfw items])
  next
    from Iw Pw present
    show "((I w \<and> P w) \<and> name0 \<in> fst ` set items) \<or> ((I w \<and> Q w) \<and> name0 \<notin> fst ` set items)"
      by simp
  qed
  then show ?case by simp
qed

text \<open>
  A walk returns when its bound exceeds the depth of every world it passes through: a
  directory of the listing lies within the depth of the world that was listed.
\<close>

lemma walkItems_total:
  assumes sub: "\<And>item v. item \<in> set items \<Longrightarrow> I v \<Longrightarrow> \<exists>r. runItem m dir f item v = Some r"
    and inv: "\<And>item v v'. item \<in> set items \<Longrightarrow> I v \<Longrightarrow>
        runItem m dir f item v = Some (Done v') \<Longrightarrow> I v'"
    and w: "I w"
  shows "\<exists>r. walkItems m dir f items w = Some r"
  using assms
proof (induction items arbitrary: w)
  case Nil
  then show ?case by simp
next
  case (Cons item items)
  from Cons.prems(1) [of item w] Cons.prems(3) obtain r where r: "runItem m dir f item w = Some r"
    by auto
  show ?case
  proof (cases r)
    case (Done w1)
    with r Cons.prems(2) [of item w w1] Cons.prems(3) have w1: "I w1" by simp
    have "\<exists>r. walkItems m dir f items w1 = Some r"
    proof (rule Cons.IH [OF _ _ w1])
      fix it v
      assume "it \<in> set items" "I v"
      then show "\<exists>r. runItem m dir f it v = Some r"
        using Cons.prems(1) [of it v] by simp
    next
      fix it v v'
      assume "it \<in> set items" "I v" "runItem m dir f it v = Some (Done v')"
      then show "I v'"
        using Cons.prems(2) [of it v v'] by simp
    qed
    with r Done show ?thesis by (simp add: walkItems_Cons)
  next
    case (Halt e u)
    with r show ?thesis by (simp add: walkItems_Cons)
  next
    case (Serving u)
    with r show ?thesis by (simp add: walkItems_Cons)
  qed
qed

lemma walk_total:
  assumes wf: "\<And>v. I v \<Longrightarrow> wellFormed v \<and> depth v < N"
  shows "(\<And>ns v v'. ns \<noteq> [] \<Longrightarrow> \<forall>x \<in> set ns. validName x \<Longrightarrow> I v \<Longrightarrow>
            f (walkName dir ns) v = Done v' \<Longrightarrow> I v') \<Longrightarrow>
         I w \<Longrightarrow> N \<le> n + length (resolve dir) \<Longrightarrow> 0 < n \<Longrightarrow> \<exists>r. walk n dir f w = Some r"
proof (induction n arbitrary: dir w)
  case 0
  then show ?case by simp
next
  case (Suc m)
  have wfI: "\<And>v. I v \<Longrightarrow> wellFormed v" using wf by simp
  show ?case
  proof (cases "ReadDir dir w")
    case (Inl e)
    then show ?thesis by simp
  next
    case (Inr items)
    have below: "I u'" if vn: "validName name" and "ns \<noteq> []" "\<forall>x \<in> set ns. validName x" "I u"
      "f (walkName (dir @ ''/'' @ name) ns) u = Done u'" for name ns u u'
      using that by (intro Suc.prems(1) [of "name # ns" u u']) (auto simp: walkName_Cons)
    have sub: "\<exists>r. runItem m dir f item v = Some r" if "item \<in> set items" "I v" for item v
    proof (cases "snd item")
      case False
      then show ?thesis by (simp add: runItem_def)
    next
      case True
      have vn: "validName (fst item)"
        using wfI [OF Suc.prems(2)] Inr that(1) by (rule ReadDir_names)
      from that(1) obtain e where "entryAt w (resolve dir @ [fst item]) = Some e"
        using ReadDir_Inr(3) [OF wfI [OF Suc.prems(2)] Inr, of "fst item" "snd item"] by auto
      then have "length (resolve dir @ [fst item]) \<le> depth w"
        by (rule depth_entry) simp
      moreover have "depth w < N" using wf [OF Suc.prems(2)] by simp
      moreover have rs: "resolve (dir @ ''/'' @ fst item) = resolve dir @ [fst item]"
        using resolve_append_slash [of dir "fst item"] resolve_validName [OF vn] by simp
      ultimately have m: "0 < m" "N \<le> m + length (resolve (dir @ ''/'' @ fst item))"
        using Suc.prems(3) by simp_all
      have "\<exists>r. walk m (dir @ ''/'' @ fst item) f v = Some r"
      proof (rule Suc.IH [OF _ that(2) m(2) m(1)])
        fix ns u u'
        assume "ns \<noteq> []" "\<forall>x \<in> set ns. validName x" "I u"
          "f (walkName (dir @ ''/'' @ fst item) ns) u = Done u'"
        with vn show "I u'" by (rule below)
      qed
      with True show ?thesis by (simp add: runItem_def)
    qed
    have inv: "I v'" if "item \<in> set items" "I v" "runItem m dir f item v = Some (Done v')"
      for item v v'
    proof -
      have vn: "validName (fst item)"
        using wfI [OF Suc.prems(2)] Inr that(1) by (rule ReadDir_names)
      show ?thesis
      proof (cases "snd item")
        case False
        with that(3) have "f (walkName dir [fst item]) v = Done v'"
          by (simp add: runItem_def walkName_single)
        with vn that(2) show ?thesis
          by (intro Suc.prems(1) [of "[fst item]" v v']) auto
      next
        case True
        with that(3) have run: "walk m (dir @ ''/'' @ fst item) f v = Some (Done v')"
          by (simp add: runItem_def)
        show ?thesis
        proof (rule walk_invariant [where I = I and f = f and n = m
              and dir = "dir @ ''/'' @ fst item" and w = v and w' = v'])
          fix u assume "I u" then show "wellFormed u" by (rule wfI)
        next
          fix ns u u'
          assume "ns \<noteq> []" "\<forall>x \<in> set ns. validName x" "I u"
            "f (walkName (dir @ ''/'' @ fst item) ns) u = Done u'"
          with vn show "I u'" by (rule below)
        next
          show "I v" by (rule that(2))
        next
          show "walk m (dir @ ''/'' @ fst item) f v = Some (Done v')" by (rule run)
        qed
      qed
    qed
    have "\<exists>r. walkItems m dir f items w = Some r"
      using sub inv Suc.prems(2) by (rule walkItems_total)
    with Inr show ?thesis by simp
  qed
qed

section \<open>The visitors of the three passes\<close>

text \<open>The operations of the file system keep the table well formed.\<close>

lemma wellFormed_update:
  assumes "wellFormed w" "p \<noteq> []" "\<forall>n \<in> set p. validName n"
  shows "wellFormed (w\<lparr>fs := AList.update p e (fs w)\<rparr>)"
  using assms by (auto simp: wellFormed_def update_keys)

lemma wellFormed_delete:
  assumes "wellFormed w"
  shows "wellFormed (w\<lparr>fs := AList.delete p (fs w)\<rparr>)"
  using assms by (auto simp: wellFormed_def delete_keys distinct_removeAll)

lemma prefixes_valid:
  assumes "q \<in> set (prefixes (resolve name))"
  shows "q \<noteq> [] \<and> (\<forall>n \<in> set q. validName n)"
proof -
  from assms obtain k where k: "q = take k (resolve name)" "1 \<le> k" "k \<le> length (resolve name)"
    by (auto simp: prefixes_def)
  then have "q \<noteq> []" by auto
  moreover have "set q \<subseteq> set (resolve name)"
    unfolding k(1) by (rule set_take_subset)
  ultimately show ?thesis
    using resolve_valid by blast
qed

lemma wellFormed_addDir:
  assumes "wellFormed w" "q \<noteq> []" "\<forall>n \<in> set q. validName n"
  shows "wellFormed (w\<lparr>fs := addDir q (fs w)\<rparr>)"
  using assms wellFormed_update [of w q "Dir True"]
  by (cases "map_of (fs w) q = None") (simp_all add: addDir_def)

lemma wellFormed_fold_addDir:
  assumes "wellFormed w" "\<forall>q \<in> set qs. q \<noteq> [] \<and> (\<forall>n \<in> set q. validName n)"
  shows "wellFormed (w\<lparr>fs := fold addDir qs (fs w)\<rparr>)"
  using assms
proof (induction qs arbitrary: w)
  case Nil
  then show ?case by simp
next
  case (Cons q qs)
  then have "wellFormed (w\<lparr>fs := addDir q (fs w)\<rparr>)"
    by (intro wellFormed_addDir) auto
  with Cons.prems(2) have "wellFormed (w\<lparr>fs := addDir q (fs w)\<rparr>
      \<lparr>fs := fold addDir qs (fs (w\<lparr>fs := addDir q (fs w)\<rparr>))\<rparr>)"
    by (intro Cons.IH) auto
  then show ?case by simp
qed

lemma wellFormed_MkdirAll:
  assumes "wellFormed w" "MkdirAll name w = Inr w'"
  shows "wellFormed w'"
proof -
  from assms(2) have "w' = w\<lparr>fs := fold addDir (prefixes (resolve name)) (fs w)\<rparr>"
    by (auto simp: MkdirAll_def split: if_splits)
  with assms(1) show ?thesis
    using wellFormed_fold_addDir [of w "prefixes (resolve name)"] prefixes_valid by blast
qed

lemma wellFormed_createDirectoryPath:
  assumes "wellFormed w" "createDirectoryPath path w = Done w'"
  shows "wellFormed w'"
  using assms createDirectoryPath_cases [of path w] wellFormed_MkdirAll by fastforce

lemma wellFormed_Create:
  assumes "wellFormed w" "Create name w = Inr (h, w')"
  shows "wellFormed w'"
proof -
  from assms(2) have "w' = w\<lparr>fs := AList.update (resolve name) (File []) (fs w)\<rparr>"
    and "resolve name \<noteq> []"
    by (auto simp: Create_def Let_def split: if_splits option.splits entry.splits)
  with assms(1) show ?thesis
    using wellFormed_update [of w "resolve name" "File []"] resolve_valid by blast
qed

lemma wellFormed_Write:
  assumes "wellFormed w"
  shows "wellFormed (Write h bytes w)"
proof (cases "map_of (fs w) h")
  case None
  with assms show ?thesis by (simp add: Write_def)
next
  case (Some e)
  then have "h \<in> set (map fst (fs w))"
    by (force dest: map_of_SomeD)
  with assms have "h \<noteq> []" "\<forall>n \<in> set h. validName n"
    by (auto simp: wellFormed_def)
  with assms Some show ?thesis
    using wellFormed_update [of w h] by (cases e) (simp_all add: Write_def)
qed

lemma wellFormed_Remove:
  assumes "wellFormed w" "Remove name w = Inr w'"
  shows "wellFormed w'"
proof -
  from assms(2) have "w' = w\<lparr>fs := AList.delete (resolve name) (fs w)\<rparr>"
    by (auto simp: Remove_def Let_def split: if_splits option.splits entry.splits)
  with assms(1) show ?thesis
    by (simp add: wellFormed_delete)
qed

lemma walkName_append: "walkName (d @ x) ns = d @ walkName x ns"
  by (induction ns arbitrary: x) (simp_all add: walkName_def)

lemma leadingSpace_walkName_public: "leadingSpace (walkName ''public'' ns) = 0"
  using walkName_append [of "''public''" "[]" ns] leadingSpace_public [of "walkName [] ns"]
  by simp

lemma resolve_public_root: "resolve ''public'' = [''public'']"
  by (rule resolve_validName) (simp add: validName_def)

lemma transpileFile_skip:
  "getExtension s \<noteq> ''.ts'' \<Longrightarrow> transpileFile eng s v = Done v"
  by (simp add: transpileFile_def)

lemma wellFormed_transpileFile:
  assumes "wellFormed v" "transpileFile eng s v = Done v'"
  shows "wellFormed v'"
proof (cases "getExtension s = ''.ts''")
  case False
  with assms show ?thesis by (simp add: transpileFile_def)
next
  case True
  with assms(2) obtain v1 v2 where
    v1: "createDirectoryPath (''public/'' @ changeExtension s ''.js'') v = Done v1"
    and v2: "transpileTypescriptFile eng s (changeExtension s ''.js'') v1 = Done v2"
    and rm: "Remove s v2 = Inr v'"
    by (auto simp: transpileFile_def Let_def split: outcome.splits sum.splits)
  from v2 obtain js h v1' where
    cr: "Create (changeExtension s ''.js'') v1 = Inr (h, v1')"
    and wr: "v2 = Write h js v1'"
    by (auto simp: transpileTypescriptFile_def split: sum.splits prod.splits)
  from assms(1) v1 have "wellFormed v1" by (rule wellFormed_createDirectoryPath)
  then have "wellFormed v1'" using cr by (rule wellFormed_Create)
  then have "wellFormed v2" unfolding wr by (rule wellFormed_Write)
  then show ?thesis using rm by (rule wellFormed_Remove)
qed

lemma cons_eq_snoc: "a # xs = xs @ [y] \<Longrightarrow> y = a"
  by (induction xs arbitrary: a) auto

text \<open>The output path of a script that the walk of \<open>public\<close> found.\<close>

lemma target_shape:
  assumes ms: "ms \<noteq> []" "\<forall>x \<in> set ms. validName x"
  shows "\<exists>n2. prefix n2 (last ms) \<and>
           changeExtension (walkName ''public'' ms) ''.js'' =
             walkName ''public'' (butlast ms) @ CHR ''/'' # n2 @ ''.js'' \<and>
           resolve (changeExtension (walkName ''public'' ms) ''.js'') =
             ''public'' # butlast ms @ [n2 @ ''.js'']"
proof -
  define a where "a = walkName ''public'' (butlast ms)"
  define n where "n = last ms"
  have s: "walkName ''public'' ms = a @ CHR ''/'' # n"
    using walkName_snoc [of "''public''" "butlast ms" "last ms"] ms(1) by (simp add: a_def n_def)
  have n: "validName n" using ms by (simp add: n_def)
  then have nslash: "CHR ''/'' \<notin> set n" by (simp add: validName_def)
  have lead: "leadingSpace (a @ CHR ''/'' # n) = 0"
    using leadingSpace_walkName_public [of ms] s by simp
  from removeExtension_walked [OF lead nslash] obtain n2
    where n2: "removeExtension (a @ CHR ''/'' # n) = a @ CHR ''/'' # n2" "prefix n2 n" by blast
  then have n2slash: "CHR ''/'' \<notin> set (n2 @ ''.js'')"
    using nslash by (auto simp: prefix_def)
  then have vn2: "validName (n2 @ ''.js'')" by (simp add: validName_def)
  have new: "changeExtension (walkName ''public'' ms) ''.js'' = a @ CHR ''/'' # (n2 @ ''.js'')"
    by (simp add: changeExtension_def addExtension_def s n2)
  have ra: "resolve a = ''public'' # butlast ms"
    using resolve_walkName [of "butlast ms" "''public''"] ms(2) resolve_public_root
    by (auto simp: a_def dest: in_set_butlastD)
  have "resolve (a @ CHR ''/'' # (n2 @ ''.js'')) = ''public'' # butlast ms @ [n2 @ ''.js'']"
    unfolding resolve_append_slash ra using resolve_validName [OF vn2] by simp
  with new n2(2) show ?thesis
    unfolding a_def n_def by auto
qed

lemma ts_name:
  assumes ms: "ms \<noteq> []" "\<forall>x \<in> set ms. validName x"
    and ext: "getExtension (walkName ''public'' ms) = ''.ts''"
  shows "suffix ''.ts'' (TrimRightSpace (last ms))"
proof -
  define a where "a = walkName ''public'' (butlast ms)"
  define n where "n = last ms"
  have s: "walkName ''public'' ms = a @ CHR ''/'' # n"
    using walkName_snoc [of "''public''" "butlast ms" "last ms"] ms(1) by (simp add: a_def n_def)
  have n: "validName n" using ms by (simp add: n_def)
  then have nslash: "CHR ''/'' \<notin> set n" by (simp add: validName_def)
  have lead: "leadingSpace (a @ CHR ''/'' # n) = 0"
    using leadingSpace_walkName_public [of ms] s by simp
  have "set (TrimRightSpace n) \<subseteq> set n"
    using prefix_TrimRightSpace [of n] by (rule set_mono_prefix)
  with nslash have "CHR ''/'' \<notin> set (TrimRightSpace n)" by auto
  then have "finalSegment (TrimSpace (a @ CHR ''/'' # n)) = TrimRightSpace n"
    unfolding TrimSpace_walked [OF lead] by (rule finalSegment_after_slash)
  with suffix_getExtension [of "walkName ''public'' ms"] ext s show ?thesis
    by (simp add: n_def)
qed

lemma trailingSpace_js: "trailingSpace ''.js'' = 0"
  by code_simp

lemma js_not_ts:
  assumes "\<forall>x \<in> set xs. validName x" "CHR ''/'' \<notin> set n2"
  shows "getExtension (walkName ''public'' (xs @ [n2 @ ''.js''])) \<noteq> ''.ts''"
proof
  assume ext: "getExtension (walkName ''public'' (xs @ [n2 @ ''.js''])) = ''.ts''"
  have "validName (n2 @ ''.js'')" using assms(2) by (simp add: validName_def)
  with assms(1) have "suffix ''.ts'' (TrimRightSpace (last (xs @ [n2 @ ''.js''])))"
    by (intro ts_name [OF _ _ ext]) auto
  moreover have "TrimRightSpace (n2 @ ''.js'') = n2 @ ''.js''"
    by (rule TrimRightSpace_noop) (rule trailingSpace_append_ext [OF trailingSpace_js], simp)
  ultimately have "suffix ''.ts'' (n2 @ ''.js'')" by simp
  then show False
    by (simp add: suffix_to_prefix)
qed

lemma target_not_ts:
  assumes ms: "ms \<noteq> []" "\<forall>x \<in> set ms. validName x"
    and ext: "getExtension (walkName ''public'' ns) = ''.ts''"
  shows "resolve (changeExtension (walkName ''public'' ms) ''.js'') \<noteq> ''public'' # ns"
proof
  assume eq: "resolve (changeExtension (walkName ''public'' ms) ''.js'') = ''public'' # ns"
  from target_shape [OF ms] obtain n2 where n2: "prefix n2 (last ms)"
    "resolve (changeExtension (walkName ''public'' ms) ''.js'') = ''public'' # butlast ms @ [n2 @ ''.js'']"
    by blast
  from ms have "validName (last ms)" by simp
  with n2(1) have "CHR ''/'' \<notin> set n2" by (auto simp: validName_def prefix_def)
  moreover from ms(2) have "\<forall>x \<in> set (butlast ms). validName x"
    by (auto dest: in_set_butlastD)
  ultimately have "getExtension (walkName ''public'' (butlast ms @ [n2 @ ''.js''])) \<noteq> ''.ts''"
    by (rule js_not_ts [rotated])
  with eq n2(2) ext show False by simp
qed

lemma target_length:
  assumes ms: "ms \<noteq> []" "\<forall>x \<in> set ms. validName x"
  shows "length (resolve (changeExtension (walkName ''public'' ms) ''.js'')) = Suc (length ms)"
  using target_shape [OF ms] ms(1) by auto

text \<open>
  What one call of the callback of \<open>transpileTypescript\<close> on a script does to the
  entries, when it returns.
\<close>

lemma transpileFile_effect:
  assumes ms: "ms \<noteq> []" "\<forall>x \<in> set ms. validName x"
    and run: "transpileFile eng (walkName ''public'' ms) v = Done v'"
    and ext: "getExtension (walkName ''public'' ms) = ''.ts''"
  shows "\<exists>c js. entryAt v (''public'' # ms) = Some (File c) \<and>
           transpileString eng c = Inr js \<and>
           (\<forall>q \<in> set (prefixes (''public'' # ''public'' # butlast ms)). \<not> isFile (entryAt v q)) \<and>
           (\<forall>r. entryAt v (resolve (changeExtension (walkName ''public'' ms) ''.js'')) \<noteq> Some (Dir r)) \<and>
           (\<forall>q. entryAt v' q =
              (if q = ''public'' # ms then None
               else if q = resolve (changeExtension (walkName ''public'' ms) ''.js'')
                    then Some (File js)
               else if q \<in> set (prefixes (''public'' # ''public'' # butlast ms)) \<and> entryAt v q = None
                    then Some (Dir True)
               else entryAt v q))"
proof -
  define new where "new = changeExtension (walkName ''public'' ms) ''.js''"
  from target_shape [OF ms] obtain n2 where n2: "prefix n2 (last ms)"
    "new = walkName ''public'' (butlast ms) @ CHR ''/'' # n2 @ ''.js''"
    "resolve new = ''public'' # butlast ms @ [n2 @ ''.js'']"
    unfolding new_def by blast
  from ms have "validName (last ms)" by simp
  with n2(1) have n2slash: "CHR ''/'' \<notin> set (n2 @ ''.js'')"
    by (auto simp: validName_def prefix_def)
  have ra: "resolve (walkName ''public'' (butlast ms)) = ''public'' # butlast ms"
    using resolve_walkName [of "butlast ms" "''public''"] ms(2) resolve_public_root
    by (auto dest: in_set_butlastD)
  have rs: "resolve (walkName ''public'' ms) = ''public'' # ms"
    using resolve_walkName [of ms "''public''"] ms(2) resolve_public_root by simp
  have "DirOf (''public/'' @ new) = (''public/'' @ walkName ''public'' (butlast ms)) @ ''/''"
    using DirOf_after_slash [OF n2slash, of "''public/'' @ walkName ''public'' (butlast ms)"]
    by (simp add: n2(2))
  then have rdir: "resolve (DirOf (''public/'' @ new)) = ''public'' # ''public'' # butlast ms"
    using resolve_trailing_slash [of "''public/'' @ walkName ''public'' (butlast ms)"]
      resolve_public [of "walkName ''public'' (butlast ms)"] ra by simp
  from run ext obtain v1 where
    v1: "createDirectoryPath (''public/'' @ new) v = Done v1"
    and r1: "(case transpileTypescriptFile eng (walkName ''public'' ms) new v1 of
                Done w2 \<Rightarrow> (case Remove (walkName ''public'' ms) w2 of
                               Inl err \<Rightarrow> Halt err w2 | Inr w3 \<Rightarrow> Done w3)
              | r \<Rightarrow> r) = Done v'"
    by (auto simp: transpileFile_def Let_def new_def split: outcome.splits)
  from r1 obtain v2 where
    v2: "transpileTypescriptFile eng (walkName ''public'' ms) new v1 = Done v2"
    and rm: "Remove (walkName ''public'' ms) v2 = Inr v'"
    by (auto split: outcome.splits sum.splits)
  from v2 obtain c js h v1' where
    rd: "ReadFile (walkName ''public'' ms) v1 = Inr c"
    and tr: "transpileString eng c = Inr js"
    and cr: "Create new v1 = Inr (h, v1')"
    and wr: "v2 = Write h js v1'"
    by (auto simp: transpileTypescriptFile_def split: sum.splits prod.splits)
  from v1 have mk: "MkdirAll (DirOf (''public/'' @ new)) v = Inr v1"
    using createDirectoryPath_cases [of "''public/'' @ new" v] by auto
  then have "\<not> list_ex (\<lambda>q. isFile (entryAt v q)) (prefixes (resolve (DirOf (''public/'' @ new))))"
    by (auto simp: MkdirAll_def split: if_splits)
  then have nofile: "\<forall>q \<in> set (prefixes (''public'' # ''public'' # butlast ms)). \<not> isFile (entryAt v q)"
    unfolding rdir by (simp add: list_ex_iff)
  note e1 = entryAt_MkdirAll [OF mk, unfolded rdir]
  from rd have c1: "entryAt v1 (''public'' # ms) = Some (File c)"
    by (auto simp: ReadFile_def rs split: option.splits entry.splits)
  then have c0: "entryAt v (''public'' # ms) = Some (File c)"
    unfolding e1 by (simp split: if_splits)
  note e2 = entryAt_Create [OF cr]
  from cr have "\<forall>r. entryAt v1 (resolve new) \<noteq> Some (Dir r)"
    by (auto simp: Create_def Let_def split: if_splits option.splits entry.splits)
  then have nodir: "\<forall>r. entryAt v (resolve new) \<noteq> Some (Dir r)"
    unfolding e1 by (auto split: if_splits)
  from e2 have h: "h = resolve new" "h \<noteq> []"
    and e2': "\<And>q. entryAt v1' q = (if q = h then Some (File []) else entryAt v1 q)"
    by auto
  have e3: "entryAt v2 q = (if q = resolve new then Some (File js) else entryAt v1 q)" for q
    unfolding wr entryAt_Write e2' using h by simp
  note e4 = entryAt_Remove [OF rm, unfolded rs]
  have "\<forall>q. entryAt v' q =
              (if q = ''public'' # ms then None
               else if q = resolve new then Some (File js)
               else if q \<in> set (prefixes (''public'' # ''public'' # butlast ms)) \<and> entryAt v q = None
                    then Some (Dir True)
               else entryAt v q)"
    unfolding e4 e3 e1 by simp
  with c0 tr nofile nodir show ?thesis
    unfolding new_def by blast
qed

lemma prefixes_full:
  "q \<in> set (prefixes p) \<Longrightarrow> length q = length p \<Longrightarrow> q = p"
  by (auto simp: prefixes_def)

lemma trailingSpace_public: "trailingSpace ''public'' = 0"
  by code_simp

lemma ts_name_not_public:
  assumes ms: "ms \<noteq> []" "\<forall>x \<in> set ms. validName x"
    and ext: "getExtension (walkName ''public'' ms) = ''.ts''"
  shows "last ms \<noteq> ''public''"
proof
  assume "last ms = ''public''"
  with ts_name [OF ms ext] have "suffix ''.ts'' (TrimRightSpace ''public'')" by simp
  then have "suffix ''.ts'' ''public''"
    using TrimRightSpace_noop [OF trailingSpace_public] by simp
  then show False by (simp add: suffix_to_prefix)
qed

text \<open>What the callback of \<open>transpileTypescript\<close> keeps, on whatever file it is called.\<close>

lemma transpileFile_entries:
  assumes ms: "ms \<noteq> []" "\<forall>x \<in> set ms. validName x"
    and run: "transpileFile eng (walkName ''public'' ms) v = Done v'"
  shows "entryAt v q = Some (Dir r) \<Longrightarrow> entryAt v' q = Some (Dir r)"
    and "isFile (entryAt v' q) \<Longrightarrow>
           isFile (entryAt v q) \<or>
           (getExtension (walkName ''public'' ms) = ''.ts'' \<and>
            q = resolve (changeExtension (walkName ''public'' ms) ''.js''))"
    and "entryAt v q = Some (File c) \<Longrightarrow>
           (getExtension (walkName ''public'' ms) = ''.ts'' \<Longrightarrow>
              q \<noteq> ''public'' # ms \<and> q \<noteq> resolve (changeExtension (walkName ''public'' ms) ''.js'')) \<Longrightarrow>
           entryAt v' q = Some (File c)"
    and "isFile (entryAt v q) \<Longrightarrow>
           (getExtension (walkName ''public'' ms) = ''.ts'' \<Longrightarrow> q \<noteq> ''public'' # ms) \<Longrightarrow>
           isFile (entryAt v' q)"
proof -
  have skip: "v' = v" if "getExtension (walkName ''public'' ms) \<noteq> ''.ts''"
    using that run by (simp add: transpileFile_def)
  have eff: "\<exists>c js. entryAt v (''public'' # ms) = Some (File c) \<and>
           (\<forall>r. entryAt v (resolve (changeExtension (walkName ''public'' ms) ''.js'')) \<noteq> Some (Dir r)) \<and>
           (\<forall>q. entryAt v' q =
              (if q = ''public'' # ms then None
               else if q = resolve (changeExtension (walkName ''public'' ms) ''.js'')
                    then Some (File js)
               else if q \<in> set (prefixes (''public'' # ''public'' # butlast ms)) \<and> entryAt v q = None
                    then Some (Dir True)
               else entryAt v q))"
    if "getExtension (walkName ''public'' ms) = ''.ts''"
    using transpileFile_effect [OF ms run that] by blast
  show "entryAt v' q = Some (Dir r)" if "entryAt v q = Some (Dir r)"
  proof (cases "getExtension (walkName ''public'' ms) = ''.ts''")
    case False
    with skip that show ?thesis by simp
  next
    case True
    from eff [OF True] that show ?thesis by auto
  qed
  show "isFile (entryAt v q) \<or>
           (getExtension (walkName ''public'' ms) = ''.ts'' \<and>
            q = resolve (changeExtension (walkName ''public'' ms) ''.js''))"
    if "isFile (entryAt v' q)"
  proof (cases "getExtension (walkName ''public'' ms) = ''.ts''")
    case False
    with skip that show ?thesis by simp
  next
    case True
    from eff [OF True] obtain c0 js where
      e: "\<And>q. entryAt v' q =
              (if q = ''public'' # ms then None
               else if q = resolve (changeExtension (walkName ''public'' ms) ''.js'')
                    then Some (File js)
               else if q \<in> set (prefixes (''public'' # ''public'' # butlast ms)) \<and> entryAt v q = None
                    then Some (Dir True)
               else entryAt v q)"
      by blast
    from that True show ?thesis
      unfolding e [of q] by (auto split: if_splits)
  qed
  show "entryAt v' q = Some (File c)"
    if "entryAt v q = Some (File c)"
      and "getExtension (walkName ''public'' ms) = ''.ts'' \<Longrightarrow>
           q \<noteq> ''public'' # ms \<and> q \<noteq> resolve (changeExtension (walkName ''public'' ms) ''.js'')"
  proof (cases "getExtension (walkName ''public'' ms) = ''.ts''")
    case False
    with skip that show ?thesis by simp
  next
    case True
    from eff [OF True] that(1) that(2) [OF True] show ?thesis by auto
  qed
  show "isFile (entryAt v' q)"
    if "isFile (entryAt v q)"
      and "getExtension (walkName ''public'' ms) = ''.ts'' \<Longrightarrow> q \<noteq> ''public'' # ms"
  proof (cases "getExtension (walkName ''public'' ms) = ''.ts''")
    case False
    with skip that show ?thesis by simp
  next
    case True
    from eff [OF True] obtain c0 js where
      e: "\<And>q. entryAt v' q =
              (if q = ''public'' # ms then None
               else if q = resolve (changeExtension (walkName ''public'' ms) ''.js'')
                    then Some (File js)
               else if q \<in> set (prefixes (''public'' # ''public'' # butlast ms)) \<and> entryAt v q = None
                    then Some (Dir True)
               else entryAt v q)"
      by blast
    from that(1) that(2) [OF True] show ?thesis
      unfolding e [of q] by (auto simp: isFile_iff)
  qed
qed

text \<open>What the callback does at a script.\<close>

lemma transpileFile_script:
  assumes ms: "ms \<noteq> []" "\<forall>x \<in> set ms. validName x"
    and run: "transpileFile eng (walkName ''public'' ms) v = Done v'"
    and ext: "getExtension (walkName ''public'' ms) = ''.ts''"
  shows "\<forall>q \<in> set (prefixes (''public'' # ''public'' # butlast ms)). \<exists>r. entryAt v' q = Some (Dir r)"
    and "entryAt v' (''public'' # ms) = None"
    and "\<exists>c js. entryAt v (''public'' # ms) = Some (File c) \<and> transpileString eng c = Inr js \<and>
           entryAt v' (resolve (changeExtension (walkName ''public'' ms) ''.js'')) = Some (File js)"
proof -
  from transpileFile_effect [OF ms run ext] obtain c js where
    c: "entryAt v (''public'' # ms) = Some (File c)" "transpileString eng c = Inr js"
    and nofile: "\<forall>q \<in> set (prefixes (''public'' # ''public'' # butlast ms)). \<not> isFile (entryAt v q)"
    and e: "\<And>q. entryAt v' q =
              (if q = ''public'' # ms then None
               else if q = resolve (changeExtension (walkName ''public'' ms) ''.js'')
                    then Some (File js)
               else if q \<in> set (prefixes (''public'' # ''public'' # butlast ms)) \<and> entryAt v q = None
                    then Some (Dir True)
               else entryAt v q)"
    by blast
  from target_shape [OF ms] obtain n2 where
    t: "resolve (changeExtension (walkName ''public'' ms) ''.js'') = ''public'' # butlast ms @ [n2 @ ''.js'']"
    by blast
  have split: "butlast ms @ [last ms] = ms" using ms(1) by simp
  show "\<forall>q \<in> set (prefixes (''public'' # ''public'' # butlast ms)). \<exists>r. entryAt v' q = Some (Dir r)"
  proof
    fix q
    assume q: "q \<in> set (prefixes (''public'' # ''public'' # butlast ms))"
    have q1: "q \<noteq> ''public'' # ms"
    proof
      assume eq: "q = ''public'' # ms"
      with ms(1) have "length q = length (''public'' # ''public'' # butlast ms)" by simp
      with q have "q = ''public'' # ''public'' # butlast ms" by (rule prefixes_full)
      with eq split have "''public'' # butlast ms = butlast ms @ [last ms]" by simp
      then have "last ms = ''public''" by (rule cons_eq_snoc)
      with ts_name_not_public [OF ms ext] show False by simp
    qed
    have q2: "q \<noteq> resolve (changeExtension (walkName ''public'' ms) ''.js'')"
    proof
      assume eq: "q = resolve (changeExtension (walkName ''public'' ms) ''.js'')"
      with t ms(1) have "length q = length (''public'' # ''public'' # butlast ms)" by simp
      with q have "q = ''public'' # ''public'' # butlast ms" by (rule prefixes_full)
      with eq t have "''public'' # butlast ms = butlast ms @ [n2 @ ''.js'']" by simp
      then have "n2 @ ''.js'' = ''public''" by (rule cons_eq_snoc)
      then have "last (n2 @ ''.js'') = last ''public''" by simp
      then show False by simp
    qed
    from nofile q have "\<not> isFile (entryAt v q)" by simp
    then have "entryAt v q = None \<or> (\<exists>r. entryAt v q = Some (Dir r))"
      by (cases "entryAt v q") (auto simp: isFile_iff intro: entry.exhaust)
    with q q1 q2 show "\<exists>r. entryAt v' q = Some (Dir r)"
      unfolding e [of q] by auto
  qed
  show "entryAt v' (''public'' # ms) = None"
    unfolding e by simp
  have "resolve (changeExtension (walkName ''public'' ms) ''.js'') \<noteq> ''public'' # ms"
    using ms ext by (rule target_not_ts)
  then have "entryAt v' (resolve (changeExtension (walkName ''public'' ms) ''.js'')) = Some (File js)"
    unfolding e by simp
  with c show "\<exists>c js. entryAt v (''public'' # ms) = Some (File c) \<and> transpileString eng c = Inr js \<and>
           entryAt v' (resolve (changeExtension (walkName ''public'' ms) ''.js'')) = Some (File js)"
    by blast
qed

lemma depth_transpileFile:
  assumes ms: "ms \<noteq> []" "\<forall>x \<in> set ms. validName x"
    and run: "transpileFile eng (walkName ''public'' ms) v = Done v'"
  shows "depth v' \<le> depth v"
proof (cases "getExtension (walkName ''public'' ms) = ''.ts''")
  case False
  with run show ?thesis by (simp add: transpileFile_def)
next
  case True
  from transpileFile_effect [OF ms run True] obtain c js where
    c: "entryAt v (''public'' # ms) = Some (File c)"
    and eff: "\<And>q. entryAt v' q =
              (if q = ''public'' # ms then None
               else if q = resolve (changeExtension (walkName ''public'' ms) ''.js'')
                    then Some (File js)
               else if q \<in> set (prefixes (''public'' # ''public'' # butlast ms)) \<and> entryAt v q = None
                    then Some (Dir True)
               else entryAt v q)"
    by blast
  from c have len: "Suc (length ms) \<le> depth v"
    using depth_entry [of v "''public'' # ms"] by simp
  show ?thesis
  proof (rule depth_le)
    fix p e
    assume p: "p \<noteq> []" "entryAt v' p = Some e"
    consider "p = resolve (changeExtension (walkName ''public'' ms) ''.js'')"
      | "p \<in> set (prefixes (''public'' # ''public'' # butlast ms))"
      | "entryAt v p = Some e"
      using p(2) unfolding eff by (auto split: if_splits)
    then show "length p \<le> depth v"
    proof cases
      case 1
      with len target_length [OF ms] show ?thesis by simp
    next
      case 2
      then have "length p \<le> length (''public'' # ''public'' # butlast ms)"
        by (rule length_prefixes)
      with len ms(1) show ?thesis by simp
    next
      case 3
      with p(1) show ?thesis by (intro depth_entry)
    qed
  qed
qed

lemma getExtension_public: "getExtension ''public'' = []"
  by code_simp

text \<open>No call of the callback puts a file below \<open>public/public\<close> when none is there.\<close>

lemma transpileFile_below_public:
  assumes ms: "ms \<noteq> []" "\<forall>x \<in> set ms. validName x"
    and run: "transpileFile eng (walkName ''public'' ms) v = Done v'"
    and none: "\<forall>q. \<not> isFile (entryAt v (''public'' # ''public'' # q))"
  shows "\<forall>q. \<not> isFile (entryAt v' (''public'' # ''public'' # q))"
proof (intro allI notI)
  fix q
  assume "isFile (entryAt v' (''public'' # ''public'' # q))"
  with transpileFile_entries(2) [OF ms run] none
  have ext: "getExtension (walkName ''public'' ms) = ''.ts''"
    and q: "''public'' # ''public'' # q = resolve (changeExtension (walkName ''public'' ms) ''.js'')"
    by blast+
  from target_shape [OF ms] obtain n2 where
    t: "resolve (changeExtension (walkName ''public'' ms) ''.js'') = ''public'' # butlast ms @ [n2 @ ''.js'']"
    by blast
  from transpileFile_effect [OF ms run ext] have c: "isFile (entryAt v (''public'' # ms))"
    by (auto simp: isFile_iff)
  from q t have eq: "''public'' # q = butlast ms @ [n2 @ ''.js'']" by simp
  show False
  proof (cases "butlast ms")
    case Nil
    with eq have "last (n2 @ ''.js'') = last ''public''" by simp
    then show False by simp
  next
    case (Cons a qs)
    with eq have "a = ''public''" by simp
    with Cons have "ms = ''public'' # qs @ [last ms]"
      using append_butlast_last_id [OF ms(1)] by simp
    with c have "isFile (entryAt v (''public'' # ''public'' # qs @ [last ms]))" by simp
    with none show False by blast
  qed
qed
section \<open>Claims about the path utilities\<close>

text \<open>
  C1 (amended). \<open>getExtension\<close> works on the final segment of the path (the path
  trimmed of surrounding white space, then cut after its last slash). For every path whose
  final segment does not begin with white space, it returns the substring of that segment
  from and including its \<^emph>\<open>first\<close> dot, and the empty string when the segment has no
  dot. The result is always a suffix of the final segment, so a dot in a directory
  component is never part of it. In particular \<open>getExtension "a/b/c.tar.gz" = ".tar.gz"\<close>,
  \<open>getExtension "a/b/noext" = ""\<close> and \<open>getExtension "a.b/c" = ""\<close>.
\<close>

theorem getExtension_from_first_dot:
  "(leadingSpace (finalSegment (TrimSpace p)) = 0 \<longrightarrow>
      getExtension p = dropWhile (\<lambda>c. c \<noteq> CHR ''.'') (finalSegment (TrimSpace p)))
   \<and> (leadingSpace (finalSegment (TrimSpace p)) = 0 \<and>
        CHR ''.'' \<notin> set (finalSegment (TrimSpace p)) \<longrightarrow> getExtension p = [])
   \<and> suffix (getExtension p) (finalSegment (TrimSpace p))
   \<and> CHR ''/'' \<notin> set (getExtension p)
   \<and> getExtension ''a/b/c.tar.gz'' = ''.tar.gz''
   \<and> getExtension ''a/b/noext'' = []
   \<and> getExtension ''a.b/c'' = []"
proof -
  have first: "getExtension p = dropWhile (\<lambda>c. c \<noteq> CHR ''.'') (finalSegment (TrimSpace p))"
    if "leadingSpace (finalSegment (TrimSpace p)) = 0"
    using that by (rule getExtension_first_dot)
  have none: "getExtension p = []"
    if "leadingSpace (finalSegment (TrimSpace p)) = 0"
      and "CHR ''.'' \<notin> set (finalSegment (TrimSpace p))"
    using that by (auto simp: first dropWhile_eq_Nil_conv)
  have "set (getExtension p) \<subseteq> set (finalSegment (TrimSpace p))"
    using suffix_getExtension by (rule set_mono_suffix)
  then have slash: "CHR ''/'' \<notin> set (getExtension p)"
    using finalSegment_no_slash by blast
  have c1: "getExtension ''a/b/c.tar.gz'' = ''.tar.gz''"
    by code_simp
  have c2: "getExtension ''a/b/noext'' = []"
    by code_simp
  have c3: "getExtension ''a.b/c'' = []"
    by code_simp
  from first none suffix_getExtension slash c1 c2 c3 show ?thesis
    by blast
qed

theorem getExtension_from_first_dot_witness:
  "leadingSpace (finalSegment (TrimSpace ''site/docs/archive.tar.gz'')) = 0
   \<and> getExtension ''site/docs/archive.tar.gz'' = ''.tar.gz''
   \<and> leadingSpace (finalSegment (TrimSpace ''site/v1.2/README'')) = 0
   \<and> CHR ''.'' \<notin> set (finalSegment (TrimSpace ''site/v1.2/README''))
   \<and> getExtension ''site/v1.2/README'' = []"
proof -
  have h1: "leadingSpace (finalSegment (TrimSpace ''site/docs/archive.tar.gz'')) = 0"
    by code_simp
  have v1: "dropWhile (\<lambda>c. c \<noteq> CHR ''.'') (finalSegment (TrimSpace ''site/docs/archive.tar.gz''))
      = ''.tar.gz''"
    by code_simp
  have h2: "leadingSpace (finalSegment (TrimSpace ''site/v1.2/README'')) = 0"
    by code_simp
  have h3: "CHR ''.'' \<notin> set (finalSegment (TrimSpace ''site/v1.2/README''))"
    by code_simp
  from h1 v1 getExtension_from_first_dot [of "''site/docs/archive.tar.gz''"]
  have a: "getExtension ''site/docs/archive.tar.gz'' = ''.tar.gz''"
    by metis
  from h2 h3 getExtension_from_first_dot [of "''site/v1.2/README''"]
  have b: "getExtension ''site/v1.2/README'' = []"
    by blast
  from h1 h2 h3 a b show ?thesis
    by blast
qed

text \<open>
  C1 as stated fails: the extension of \<open>a/b/c.tar.gz\<close> is \<open>.tar.gz\<close>, from the first
  dot of the file name, not \<open>.gz\<close>.
\<close>

theorem getExtension_last_dot_counterexample:
  "getExtension ''a/b/c.tar.gz'' = ''.tar.gz'' \<and> getExtension ''a/b/c.tar.gz'' \<noteq> ''.gz''"
  by code_simp

text \<open>
  C7. For every path \<open>p\<close> and every intermediate extension \<open>x\<close> (a string that
  begins with a dot, has no slash and does not end in white space), changing the extension
  to \<open>x\<close> and then to any extension \<open>ext\<close> gives
  \<open>addExtension (removeExtension p) ext\<close>: the intermediate extension leaves no trace.
  The claim's own instance, the intermediate extension \<open>.x\<close>, is the second part.
\<close>

theorem changeExtension_roundtrip:
  "(isExtension x \<longrightarrow>
      changeExtension (changeExtension p x) ext = addExtension (removeExtension p) ext)
   \<and> changeExtension (changeExtension p ''.x'') ext = addExtension (removeExtension p) ext"
proof -
  have general: "changeExtension (changeExtension p y) ext = addExtension (removeExtension p) ext"
    if "isExtension y" for y
    using that
    by (simp add: changeExtension_def addExtension_def removeExtension_intermediate_ext)
  have "isExtension ''.x''"
    by code_simp
  with general show ?thesis
    by blast
qed

theorem changeExtension_roundtrip_witness:
  "isExtension ''.tmp''
   \<and> changeExtension (changeExtension ''content/notes/day.one.md'' ''.tmp'') ''.ext''
     = ''content/notes/day.ext''
   \<and> addExtension (removeExtension ''content/notes/day.one.md'') ''.ext''
     = ''content/notes/day.ext''"
proof -
  have x: "isExtension ''.tmp''"
    by code_simp
  have "addExtension (removeExtension ''content/notes/day.one.md'') ''.ext''
      = ''content/notes/day.ext''"
    by code_simp
  with x changeExtension_roundtrip [of "''.tmp''" "''content/notes/day.one.md''" "''.ext''"]
  show ?thesis
    by simp
qed


section \<open>Claims about rendering one content file\<close>

text \<open>
  C3. For every content file whose front matter has \<open>Draft\<close> equal to the boolean
  \<open>true\<close>, whatever its other fields are, \<open>generateHtmlFile\<close> returns without an error
  and leaves the world as it was: no file is written anywhere.
\<close>

theorem draft_writes_nothing:
  assumes "markdownWriter sourceMd = Inr (buf, metaData)"
    and "lookupMeta metaData ''Draft'' = Bool True"
  shows "generateHtmlFile templates markdownWriter sourceMd outputFile w = Done w"
  using assms by (rule generateHtmlFile_draft)

theorem draft_writes_nothing_witness:
  "lookupMeta [(''Title'', Str ''Notes''), (''Draft'', Bool True)] ''Draft'' = Bool True
   \<and> generateHtmlFile Map.empty
        (\<lambda>s. Inr (''<p>notes</p>'', [(''Title'', Str ''Notes''), (''Draft'', Bool True)]))
        ''notes'' ''public/notes.html'' \<lparr>fs = [([''public''], Dir True)]\<rparr>
     = Done \<lparr>fs = [([''public''], Dir True)]\<rparr>"
proof -
  have conv: "(\<lambda>s :: string. Inr (''<p>notes</p>'', [(''Title'', Str ''Notes''), (''Draft'', Bool True)])
      :: error + (string \<times> metadata)) ''notes''
      = Inr (''<p>notes</p>'', [(''Title'', Str ''Notes''), (''Draft'', Bool True)])"
    by simp
  have draft: "lookupMeta [(''Title'', Str ''Notes''), (''Draft'', Bool True)] ''Draft'' = Bool True"
    by (simp add: lookupMeta_def)
  from conv draft
    draft_writes_nothing [where markdownWriter = "\<lambda>s. Inr (''<p>notes</p>'', [(''Title'', Str ''Notes''), (''Draft'', Bool True)])"
      and sourceMd = "''notes''" and buf = "''<p>notes</p>''"
      and metaData = "[(''Title'', Str ''Notes''), (''Draft'', Bool True)]"
      and templates = Map.empty and outputFile = "''public/notes.html''"
      and w = "\<lparr>fs = [([''public''], Dir True)]\<rparr>"]
  show ?thesis
    by simp
qed

text \<open>
  C9. Required-field validation is applied to pages that are not drafts, and only to
  them: when \<open>Title\<close>, \<open>Summary\<close> or \<open>Template\<close> is absent or not a string, a page
  whose \<open>Draft\<close> is \<open>true\<close> is skipped, successfully and with the world unchanged,
  while any other page ends the process.
\<close>

theorem draft_skips_validation:
  assumes "markdownWriter sourceMd = Inr (buf, metaData)"
    and "\<not> requiredFieldsValid metaData"
  shows "(lookupMeta metaData ''Draft'' = Bool True \<longrightarrow>
            generateHtmlFile templates markdownWriter sourceMd outputFile w = Done w)
       \<and> (lookupMeta metaData ''Draft'' \<noteq> Bool True \<longrightarrow>
            (\<exists>e w'. generateHtmlFile templates markdownWriter sourceMd outputFile w = Halt e w'))"
proof (intro conjI impI)
  assume "lookupMeta metaData ''Draft'' = Bool True"
  with assms(1) show "generateHtmlFile templates markdownWriter sourceMd outputFile w = Done w"
    by (rule generateHtmlFile_draft)
next
  assume "lookupMeta metaData ''Draft'' \<noteq> Bool True"
  with assms(1) show "\<exists>e w'. generateHtmlFile templates markdownWriter sourceMd outputFile w = Halt e w'"
    using assms(2) by (rule invalid_fields_halt_any)
qed

theorem draft_skips_validation_witness:
  "\<not> requiredFieldsValid [(''Title'', Num 7), (''Draft'', Bool True)]
   \<and> lookupMeta [(''Title'', Num 7), (''Draft'', Bool True)] ''Draft'' = Bool True
   \<and> generateHtmlFile Map.empty
        (\<lambda>s. Inr (''<p>x</p>'', [(''Title'', Num 7), (''Draft'', Bool True)]))
        ''x'' ''public/x.html'' \<lparr>fs = []\<rparr>
     = Done \<lparr>fs = []\<rparr>"
proof -
  have conv: "(\<lambda>s :: string. Inr (''<p>x</p>'', [(''Title'', Num 7), (''Draft'', Bool True)])
      :: error + (string \<times> metadata)) ''x''
      = Inr (''<p>x</p>'', [(''Title'', Num 7), (''Draft'', Bool True)])"
    by simp
  have invalid: "\<not> requiredFieldsValid [(''Title'', Num 7), (''Draft'', Bool True)]"
    by (simp add: requiredFieldsValid_def lookupMeta_def)
  have draft: "lookupMeta [(''Title'', Num 7), (''Draft'', Bool True)] ''Draft'' = Bool True"
    by (simp add: lookupMeta_def)
  from conv invalid draft
    draft_skips_validation [where markdownWriter = "\<lambda>s. Inr (''<p>x</p>'', [(''Title'', Num 7), (''Draft'', Bool True)])"
      and sourceMd = "''x''" and buf = "''<p>x</p>''"
      and metaData = "[(''Title'', Num 7), (''Draft'', Bool True)]"
      and templates = Map.empty and outputFile = "''public/x.html''" and w = "\<lparr>fs = []\<rparr>"]
  show ?thesis
    by simp
qed

text \<open>
  C2 (amended). For a page that is not a draft and whose \<open>Title\<close>, \<open>Summary\<close> or
  \<open>Template\<close> is absent or not a string, \<open>generateHtmlFile\<close> ends the process. The
  output file is created before the fields are read: when its directories and the file
  itself can be created, the process ends with the panic of a failed type assertion, and
  by then one file has been written, the output file, empty. On success exactly one file
  is written, the output file; a draft writes none.
\<close>

theorem generateHtmlFile_files_written:
  assumes "markdownWriter sourceMd = Inr (buf, metaData)"
  shows "(lookupMeta metaData ''Draft'' = Bool True \<longrightarrow>
            generateHtmlFile templates markdownWriter sourceMd outputFile w = Done w)
       \<and> (lookupMeta metaData ''Draft'' \<noteq> Bool True \<and> \<not> requiredFieldsValid metaData \<longrightarrow>
            (\<exists>e w'. generateHtmlFile templates markdownWriter sourceMd outputFile w = Halt e w'))
       \<and> (\<forall>w1 h w2.
             lookupMeta metaData ''Draft'' \<noteq> Bool True \<and> \<not> requiredFieldsValid metaData \<and>
             createDirectoryPath outputFile w = Done w1 \<and> Create outputFile w1 = Inr (h, w2) \<longrightarrow>
               (\<exists>key. generateHtmlFile templates markdownWriter sourceMd outputFile w
                  = Halt (InterfaceConversion key) w2) \<and>
               filesOf w2 = {(q, c). (q, c) \<in> filesOf w \<and> q \<noteq> resolve outputFile}
                              \<union> {(resolve outputFile, [])})
       \<and> (\<forall>w'. lookupMeta metaData ''Draft'' \<noteq> Bool True \<and>
             generateHtmlFile templates markdownWriter sourceMd outputFile w = Done w' \<longrightarrow>
               (\<exists>out. filesOf w' = {(q, c). (q, c) \<in> filesOf w \<and> q \<noteq> resolve outputFile}
                                     \<union> {(resolve outputFile, out)}))"
proof (intro conjI allI impI)
  assume "lookupMeta metaData ''Draft'' = Bool True"
  with assms show "generateHtmlFile templates markdownWriter sourceMd outputFile w = Done w"
    by (rule generateHtmlFile_draft)
next
  assume a: "lookupMeta metaData ''Draft'' \<noteq> Bool True \<and> \<not> requiredFieldsValid metaData"
  from assms conjunct1 [OF a] conjunct2 [OF a]
  show "\<exists>e w'. generateHtmlFile templates markdownWriter sourceMd outputFile w = Halt e w'"
    by (rule invalid_fields_halt_any)
next
  fix w1 h w2
  assume a: "lookupMeta metaData ''Draft'' \<noteq> Bool True \<and> \<not> requiredFieldsValid metaData \<and>
    createDirectoryPath outputFile w = Done w1 \<and> Create outputFile w1 = Inr (h, w2)"
  then have nd: "lookupMeta metaData ''Draft'' \<noteq> Bool True"
    and inv: "\<not> requiredFieldsValid metaData"
    and mk: "createDirectoryPath outputFile w = Done w1"
    and cr: "Create outputFile w1 = Inr (h, w2)"
    by simp_all
  from assms nd inv mk cr
  show "\<exists>key. generateHtmlFile templates markdownWriter sourceMd outputFile w
      = Halt (InterfaceConversion key) w2"
    by (rule invalid_fields_halt)
  from mk have "filesOf w1 = filesOf w"
    by (rule filesOf_createDirectoryPath)
  with filesOf_Create [OF cr]
  show "filesOf w2 = {(q, c). (q, c) \<in> filesOf w \<and> q \<noteq> resolve outputFile}
      \<union> {(resolve outputFile, [])}"
    by simp
next
  fix w'
  assume a: "lookupMeta metaData ''Draft'' \<noteq> Bool True \<and>
    generateHtmlFile templates markdownWriter sourceMd outputFile w = Done w'"
  then have nd: "lookupMeta metaData ''Draft'' \<noteq> Bool True"
    and fin: "generateHtmlFile templates markdownWriter sourceMd outputFile w = Done w'"
    by simp_all
  from generateHtmlFile_Done [OF assms nd fin]
  obtain w1 h w2 out where s: "createDirectoryPath outputFile w = Done w1"
    "Create outputFile w1 = Inr (h, w2)" "w' = Write h out w2"
    by blast
  from s(1) have "filesOf w1 = filesOf w"
    by (rule filesOf_createDirectoryPath)
  with filesOf_Write_created [OF s(2), of out] s(3)
  have "filesOf w' = {(q, c). (q, c) \<in> filesOf w \<and> q \<noteq> resolve outputFile}
      \<union> {(resolve outputFile, out)}"
    by simp
  then show "\<exists>out. filesOf w' = {(q, c). (q, c) \<in> filesOf w \<and> q \<noteq> resolve outputFile}
      \<union> {(resolve outputFile, out)}"
    by blast
qed

theorem generateHtmlFile_files_written_witness:
  "lookupMeta [(''Summary'', Str ''s''), (''Template'', Str ''default'')] ''Draft'' \<noteq> Bool True
   \<and> \<not> requiredFieldsValid [(''Summary'', Str ''s''), (''Template'', Str ''default'')]
   \<and> createDirectoryPath ''public/page.html'' \<lparr>fs = []\<rparr> = Done \<lparr>fs = [([''public''], Dir True)]\<rparr>
   \<and> Create ''public/page.html'' \<lparr>fs = [([''public''], Dir True)]\<rparr>
       = Inr ([''public'', ''page.html''],
              \<lparr>fs = [([''public''], Dir True), ([''public'', ''page.html''], File [])]\<rparr>)
   \<and> (\<exists>key. generateHtmlFile Map.empty
          (\<lambda>s. Inr (''<p>'', [(''Summary'', Str ''s''), (''Template'', Str ''default'')]))
          ''# hi'' ''public/page.html'' \<lparr>fs = []\<rparr>
        = Halt (InterfaceConversion key)
            \<lparr>fs = [([''public''], Dir True), ([''public'', ''page.html''], File [])]\<rparr>)
   \<and> filesOf \<lparr>fs = [([''public''], Dir True), ([''public'', ''page.html''], File [])]\<rparr>
       = {(q, c). (q, c) \<in> filesOf \<lparr>fs = []\<rparr> \<and> q \<noteq> resolve ''public/page.html''}
           \<union> {(resolve ''public/page.html'', [])}"
proof -
  let ?m = "[(''Summary'', Str ''s''), (''Template'', Str ''default'')]"
  have conv: "(\<lambda>s :: string. Inr (''<p>'', ?m) :: error + (string \<times> metadata)) ''# hi''
      = Inr (''<p>'', ?m)"
    by simp
  have nodraft: "lookupMeta ?m ''Draft'' \<noteq> Bool True"
    by (simp add: lookupMeta_def)
  have invalid: "\<not> requiredFieldsValid ?m"
    by (simp add: requiredFieldsValid_def lookupMeta_def)
  have mk: "createDirectoryPath ''public/page.html'' \<lparr>fs = []\<rparr>
      = Done \<lparr>fs = [([''public''], Dir True)]\<rparr>"
    by code_simp
  have cr: "Create ''public/page.html'' \<lparr>fs = [([''public''], Dir True)]\<rparr>
      = Inr ([''public'', ''page.html''],
             \<lparr>fs = [([''public''], Dir True), ([''public'', ''page.html''], File [])]\<rparr>)"
    by code_simp
  note inst = generateHtmlFile_files_written [where markdownWriter = "\<lambda>s. Inr (''<p>'', ?m)"
      and sourceMd = "''# hi''" and buf = "''<p>''" and metaData = ?m
      and templates = Map.empty and outputFile = "''public/page.html''" and w = "\<lparr>fs = []\<rparr>"]
  note c = inst [OF conv, THEN conjunct2, THEN conjunct2, THEN conjunct1, rule_format,
      OF conjI [OF nodraft conjI [OF invalid conjI [OF mk cr]]]]
  show ?thesis
  proof (intro conjI)
    show "\<exists>key. generateHtmlFile Map.empty (\<lambda>s. Inr (''<p>'', ?m)) ''# hi''
          ''public/page.html'' \<lparr>fs = []\<rparr>
        = Halt (InterfaceConversion key)
            \<lparr>fs = [([''public''], Dir True), ([''public'', ''page.html''], File [])]\<rparr>"
      using c by (rule conjunct1)
    show "filesOf \<lparr>fs = [([''public''], Dir True), ([''public'', ''page.html''], File [])]\<rparr>
        = {(q, c). (q, c) \<in> filesOf \<lparr>fs = []\<rparr> \<and> q \<noteq> resolve ''public/page.html''}
            \<union> {(resolve ''public/page.html'', [])}"
      using c by (rule conjunct2)
  qed (rule nodraft invalid mk cr)+
qed

text \<open>
  C2 as stated fails: a page without \<open>Title\<close> ends the process with the panic of the
  type assertion, and the output file, which did not exist before, exists afterwards.
\<close>

theorem validation_failure_counterexample:
  "generateHtmlFile Map.empty
      (\<lambda>s. Inr (''<p>'', [(''Summary'', Str ''s''), (''Template'', Str ''default'')]))
      ''# hi'' ''public/page.html'' \<lparr>fs = []\<rparr>
    = Halt (InterfaceConversion ''Title'')
        \<lparr>fs = [([''public''], Dir True), ([''public'', ''page.html''], File [])]\<rparr>
   \<and> entryAt \<lparr>fs = []\<rparr> [''public'', ''page.html''] = None
   \<and> entryAt \<lparr>fs = [([''public''], Dir True), ([''public'', ''page.html''], File [])]\<rparr>
        [''public'', ''page.html''] = Some (File [])"
  by code_simp


section \<open>Claims about the build orchestrator\<close>

text \<open>
  C4 (amended). \<open>main\<close> performs its steps in this order: it first loads the templates
  and constructs the converter, then deletes the output root recursively, then renders the
  content tree, then mirrors the theme's static tree, then the project's static tree, then
  runs the transpiler pass, then writes the empty marker file, then starts the preview
  server. The first step that fails halts the process, with the world as the steps before
  it and the failing step left it; in particular a failure to load the templates halts
  the process before anything is deleted.
\<close>

theorem main_order:
  "(generateTemplates eng ''theme/templates/'' w = Inl e \<longrightarrow>
      main n eng w = Some (Halt e w))
   \<and> (generateTemplates eng ''theme/templates/'' w = Inr templates \<and>
       removePublic w = Halt e w1 \<longrightarrow>
      main n eng w = Some (Halt e w1))
   \<and> (generateTemplates eng ''theme/templates/'' w = Inr templates \<and>
       removePublic w = Done w1 \<and>
       convertContentDirectory n templates (convert eng) w1 = Some (Halt e w2) \<longrightarrow>
      main n eng w = Some (Halt e w2))
   \<and> (generateTemplates eng ''theme/templates/'' w = Inr templates \<and>
       removePublic w = Done w1 \<and>
       convertContentDirectory n templates (convert eng) w1 = Some (Done w2) \<and>
       copyStaticDirectory n ''theme/static'' w2 = Some (Halt e w3) \<longrightarrow>
      main n eng w = Some (Halt e w3))
   \<and> (generateTemplates eng ''theme/templates/'' w = Inr templates \<and>
       removePublic w = Done w1 \<and>
       convertContentDirectory n templates (convert eng) w1 = Some (Done w2) \<and>
       copyStaticDirectory n ''theme/static'' w2 = Some (Done w3) \<and>
       copyStaticDirectory n ''static'' w3 = Some (Halt e w4) \<longrightarrow>
      main n eng w = Some (Halt e w4))
   \<and> (generateTemplates eng ''theme/templates/'' w = Inr templates \<and>
       removePublic w = Done w1 \<and>
       convertContentDirectory n templates (convert eng) w1 = Some (Done w2) \<and>
       copyStaticDirectory n ''theme/static'' w2 = Some (Done w3) \<and>
       copyStaticDirectory n ''static'' w3 = Some (Done w4) \<and>
       transpileTypescript n eng w4 = Some (Halt e w5) \<longrightarrow>
      main n eng w = Some (Halt e w5))
   \<and> (generateTemplates eng ''theme/templates/'' w = Inr templates \<and>
       removePublic w = Done w1 \<and>
       convertContentDirectory n templates (convert eng) w1 = Some (Done w2) \<and>
       copyStaticDirectory n ''theme/static'' w2 = Some (Done w3) \<and>
       copyStaticDirectory n ''static'' w3 = Some (Done w4) \<and>
       transpileTypescript n eng w4 = Some (Done w5) \<and>
       createMarker w5 = Halt e w6 \<longrightarrow>
      main n eng w = Some (Halt e w6))
   \<and> (generateTemplates eng ''theme/templates/'' w = Inr templates \<and>
       removePublic w = Done w1 \<and>
       convertContentDirectory n templates (convert eng) w1 = Some (Done w2) \<and>
       copyStaticDirectory n ''theme/static'' w2 = Some (Done w3) \<and>
       copyStaticDirectory n ''static'' w3 = Some (Done w4) \<and>
       transpileTypescript n eng w4 = Some (Done w5) \<and>
       createMarker w5 = Done w6 \<longrightarrow>
      main n eng w = Some (startHTTPServer eng ''public'' w6))"
  by (simp add: main_def andThen_def Let_def)

theorem main_order_witness:
  "main 2 exampleEngines smallSite
     = Some (Serving \<lparr>fs = [([''static''], Dir True), ([''static'', ''app.ts''], File ''let x''),
                           ([''public''], Dir True), ([''public'', ''public''], Dir True),
                           ([''public'', ''app.js''], File ''js:let x''),
                           ([''public'', ''.nojekyll''], File [])]\<rparr>)
   \<and> generateTemplates exampleEngines ''theme/templates/'' staleWorld
       = Inl (IOError ''theme/templates/layouts/partials'')
   \<and> main 2 exampleEngines staleWorld
       = Some (Halt (IOError ''theme/templates/layouts/partials'') staleWorld)"
proof -
  let ?w1 = "\<lparr>fs = [([''static''], Dir True), ([''static'', ''app.ts''], File ''let x'')]\<rparr>"
  let ?w4 = "\<lparr>fs = [([''static''], Dir True), ([''static'', ''app.ts''], File ''let x''),
                      ([''public''], Dir True), ([''public'', ''app.ts''], File ''let x'')]\<rparr>"
  let ?w5 = "\<lparr>fs = [([''static''], Dir True), ([''static'', ''app.ts''], File ''let x''),
                      ([''public''], Dir True), ([''public'', ''public''], Dir True),
                      ([''public'', ''app.js''], File ''js:let x'')]\<rparr>"
  let ?w6 = "\<lparr>fs = [([''static''], Dir True), ([''static'', ''app.ts''], File ''let x''),
                      ([''public''], Dir True), ([''public'', ''public''], Dir True),
                      ([''public'', ''app.js''], File ''js:let x''),
                      ([''public'', ''.nojekyll''], File [])]\<rparr>"
  have "ReadDir (''theme/templates/'' @ ''layouts/'') smallSite
      = Inl (IOError ''theme/templates/layouts/'')"
    by code_simp
  then have s0: "generateTemplates exampleEngines ''theme/templates/'' smallSite = Inr Map.empty"
    by (rule generateTemplates_no_layouts)
  have s1: "removePublic smallSite = Done ?w1"
    by code_simp
  have s2: "convertContentDirectory 2 Map.empty (convert exampleEngines) ?w1 = Some (Done ?w1)"
    by code_simp
  have s3: "copyStaticDirectory 2 ''theme/static'' ?w1 = Some (Done ?w1)"
    by code_simp
  have s4: "copyStaticDirectory 2 ''static'' ?w1 = Some (Done ?w4)"
    by code_simp
  have s5: "transpileTypescript 2 exampleEngines ?w4 = Some (Done ?w5)"
    by code_simp
  have s6: "createMarker ?w5 = Done ?w6"
    by code_simp
  have s7: "startHTTPServer exampleEngines ''public'' ?w6 = Serving ?w6"
    by code_simp
  have "GlobStar (''theme/templates/'' @ ''layouts/'') staleWorld
      = [''theme/templates/layouts/partials'']"
    and "GlobStar (''theme/templates/'' @ ''includes/'') staleWorld = []"
    and "ReadFile ''theme/templates/layouts/partials'' staleWorld
      = Inl (IOError ''theme/templates/layouts/partials'')"
    by code_simp+
  then have t0: "generateTemplates exampleEngines ''theme/templates/'' staleWorld
      = Inl (IOError ''theme/templates/layouts/partials'')"
    by (simp add: generateTemplates_def ParseFiles_def)
  from s0 s1 s2 s3 s4 s5 s6
    main_order [where n = 2 and eng = exampleEngines and w = smallSite and templates = Map.empty
      and ?w1.0 = ?w1 and ?w2.0 = ?w1 and ?w3.0 = ?w1 and ?w4.0 = ?w4 and ?w5.0 = ?w5
      and ?w6.0 = ?w6]
  have a: "main 2 exampleEngines smallSite = Some (startHTTPServer exampleEngines ''public'' ?w6)"
    by simp
  from t0 main_order [where n = 2 and eng = exampleEngines and w = staleWorld
      and e = "IOError ''theme/templates/layouts/partials''"]
  have b: "main 2 exampleEngines staleWorld
      = Some (Halt (IOError ''theme/templates/layouts/partials'') staleWorld)"
    by simp
  from a b s7 t0 show ?thesis
    by simp
qed

text \<open>
  C4 as stated fails on its first two steps: when loading the templates fails, the process
  halts with the output root of the earlier build still in place, although deleting it
  (the claim's first step) would have removed it.
\<close>

theorem main_delete_first_counterexample:
  "main 2 exampleEngines staleWorld
     = Some (Halt (IOError ''theme/templates/layouts/partials'') staleWorld)
   \<and> entryAt staleWorld [''public'', ''old.html''] = Some (File ''stale'')
   \<and> removePublic staleWorld
       = Done \<lparr>fs = [([''theme''], Dir True), ([''theme'', ''templates''], Dir True),
            ([''theme'', ''templates'', ''layouts''], Dir True),
            ([''theme'', ''templates'', ''layouts'', ''partials''], Dir True)]\<rparr>"
  by code_simp


section \<open>Claims about the tree walker\<close>

text \<open>
  C8. In a well-formed world, \<open>walk\<close> with enough depth for the longest path returns,
  and it calls its callback exactly once for each file that can be reached from the root
  directory through directories that can be listed, and on nothing else: the paths noted by
  the recording callback are distinct, and they are exactly the paths of those files. No
  callback is called on a directory, and none on anything below a directory that cannot be
  listed; such a directory does not end the walk. For every callback, a walk ends otherwise
  than by returning only when a call of the callback ended that way: \<open>walk\<close> itself
  never fails.
\<close>

theorem walk_visits_each_file_once:
  fixes w :: traced
  assumes "wellFormed w" and "depth w < n"
  shows "(\<exists>vs. walk n rootDir recordVisit w = Some (Done (w\<lparr>visited := visited w @ vs\<rparr>)) \<and>
            distinct vs \<and> set vs = filesReached w rootDir \<and>
            (\<forall>s \<in> set vs. isFile (entryAt w (resolve s))) \<and>
            (\<forall>ns ms. entryAt w (resolve rootDir @ ns) = Some (Dir False) \<and> ms \<noteq> [] \<and>
                (\<forall>m \<in> set ms. validName m) \<longrightarrow> walkName rootDir (ns @ ms) \<notin> set vs))
       \<and> (\<forall>fileFunction r. walk n rootDir fileFunction w = Some r \<longrightarrow>
            (\<exists>w'. r = Done w') \<or> (\<exists>s v. fileFunction s v = r))"
proof
  from assms(2) have "0 < n" "depth w < n + length (resolve rootDir)"
    by simp_all
  with assms(1) obtain vs where vs:
    "walk n rootDir recordVisit (w\<lparr>visited := visited w\<rparr>)
       = Some (Done (w\<lparr>visited := visited w @ vs\<rparr>))"
    "distinct vs" "set vs = filesReached w rootDir"
    using walk_recordVisit [of w n rootDir "visited w"] by blast
  from vs(3) assms(1) have files: "\<forall>s \<in> set vs. isFile (entryAt w (resolve s))"
    using filesReached_isFile by blast
  from vs(3) assms(1)
  have locked: "\<forall>ns ms. entryAt w (resolve rootDir @ ns) = Some (Dir False) \<and> ms \<noteq> [] \<and>
      (\<forall>m \<in> set ms. validName m) \<longrightarrow> walkName rootDir (ns @ ms) \<notin> set vs"
    using filesReached_below_unreadable [of w rootDir] by blast
  from vs files locked
  show "\<exists>vs. walk n rootDir recordVisit w = Some (Done (w\<lparr>visited := visited w @ vs\<rparr>)) \<and>
      distinct vs \<and> set vs = filesReached w rootDir \<and>
      (\<forall>s \<in> set vs. isFile (entryAt w (resolve s))) \<and>
      (\<forall>ns ms. entryAt w (resolve rootDir @ ns) = Some (Dir False) \<and> ms \<noteq> [] \<and>
          (\<forall>m \<in> set ms. validName m) \<longrightarrow> walkName rootDir (ns @ ms) \<notin> set vs)"
    by (intro exI [of _ vs]) simp
next
  show "\<forall>fileFunction r. walk n rootDir fileFunction w = Some r \<longrightarrow>
      (\<exists>w'. r = Done w') \<or> (\<exists>s v. fileFunction s v = r)"
    using walk_stops by blast
qed

theorem walk_visits_each_file_once_witness:
  "wellFormed lockedSite \<and> depth lockedSite < 4
   \<and> (\<exists>vs. walk 4 ''content'' recordVisit lockedSite
              = Some (Done (lockedSite\<lparr>visited := visited lockedSite @ vs\<rparr>)) \<and>
            distinct vs \<and> set vs = filesReached lockedSite ''content'')
   \<and> walk 4 ''content'' recordVisit lockedSite
       = Some (Done (lockedSite\<lparr>visited := [''content/a.md'', ''content/sub/b.md'']\<rparr>))"
proof -
  have wf: "wellFormed lockedSite"
    by code_simp
  have d: "depth lockedSite < 4"
    by code_simp
  have run: "walk 4 ''content'' recordVisit lockedSite
      = Some (Done (lockedSite\<lparr>visited := [''content/a.md'', ''content/sub/b.md'']\<rparr>))"
    by code_simp
  from walk_visits_each_file_once [OF wf d, of "''content''"]
  have "\<exists>vs. walk 4 ''content'' recordVisit lockedSite
              = Some (Done (lockedSite\<lparr>visited := visited lockedSite @ vs\<rparr>)) \<and>
            distinct vs \<and> set vs = filesReached lockedSite ''content''"
    by blast
  with wf d run show ?thesis
    by simp
qed


section \<open>Claims about the transpiler pass\<close>



end
